theory Spec2Isabelle
  imports Complex_Main
begin

section \<open>Job records and the two backends\<close>

text \<open>
  A job record is a Python dict from field names to JSON values. Time stamps are the
  readings of \<^verbatim>\<open>time.time()\<close>; every operation that reads the clock takes the reading
  as the argument \<open>now\<close>. The job id that \<^verbatim>\<open>uuid.uuid4().hex\<close> draws is an argument
  of \<open>enqueue\<close>.
\<close>

datatype jval =
    JNone
  | JBool bool
  | JStr string
  | JNum real
  | JDict "(string \<times> jval) list"

type_synonym jrecord = "string \<rightharpoonup> jval"

datatype error =
    RuntimeError string
  | TypeError string
  | AttributeError string
  | KeyError string
  | OSError string
  | HTTPException nat string

text \<open>Python truthiness of a JSON value (\<^verbatim>\<open>if not x\<close>, \<^verbatim>\<open>x or y\<close>).\<close>

fun truthy :: "jval \<Rightarrow> bool" where
  "truthy JNone = False"
| "truthy (JBool b) = b"
| "truthy (JStr s) = (s \<noteq> [])"
| "truthy (JNum x) = (x \<noteq> 0)"
| "truthy (JDict kvs) = (kvs \<noteq> [])"

text \<open>\<^verbatim>\<open>d.get(k)\<close>: the value, or \<^verbatim>\<open>None\<close> for a missing key.\<close>

definition dict_get :: "jrecord \<Rightarrow> string \<Rightarrow> jval" where
  "dict_get d k = (case d k of None \<Rightarrow> JNone | Some v \<Rightarrow> v)"

subsection \<open>\<^verbatim>\<open>jobs_memory.py\<close>\<close>

record MemoryBackend =
  jobs :: "string \<rightharpoonup> jrecord"
  queue :: "string list"

definition initial_record :: "string \<Rightarrow> jval \<Rightarrow> real \<Rightarrow> jrecord" where
  "initial_record job_id payload now =
     [''job_id'' \<mapsto> JStr job_id,
      ''status'' \<mapsto> JStr ''queued'',
      ''progress'' \<mapsto> JNum 0,
      ''message'' \<mapsto> JStr ''V ocheredi'',
      ''result'' \<mapsto> JNone,
      ''error'' \<mapsto> JNone,
      ''reason'' \<mapsto> JNone,
      ''file_path'' \<mapsto> JNone,
      ''filename'' \<mapsto> JNone,
      ''mimetype'' \<mapsto> JNone,
      ''meta'' \<mapsto> JNone,
      ''payload'' \<mapsto> payload,
      ''created_at'' \<mapsto> JNum now,
      ''updated_at'' \<mapsto> JNum now]"

definition MemoryBackend_enqueue ::
  "MemoryBackend \<Rightarrow> string \<Rightarrow> jval \<Rightarrow> real \<Rightarrow> MemoryBackend \<times> string" where
  "MemoryBackend_enqueue self job_id payload now =
     (self\<lparr>jobs := (jobs self)(job_id \<mapsto> initial_record job_id payload now),
            queue := queue self @ [job_id]\<rparr>, job_id)"

text \<open>\<^verbatim>\<open>dict(job) if job else None\<close>: an empty stored dict reads as absent.\<close>

definition MemoryBackend_get :: "MemoryBackend \<Rightarrow> string \<Rightarrow> jrecord option" where
  "MemoryBackend_get self job_id =
     (case jobs self job_id of
        None \<Rightarrow> None
      | Some job \<Rightarrow> if job = Map.empty then None else Some job)"

definition MemoryBackend_set :: "MemoryBackend \<Rightarrow> string \<Rightarrow> jrecord \<Rightarrow> MemoryBackend" where
  "MemoryBackend_set self job_id data = self\<lparr>jobs := (jobs self)(job_id \<mapsto> data)\<rparr>"

subsection \<open>\<^verbatim>\<open>jobs_rq.py\<close>\<close>

text \<open>
  The Redis value under a key is the text \<^verbatim>\<open>json.dumps(data)\<close>, and \<open>get\<close> returns
  \<^verbatim>\<open>json.loads\<close> of it. On the values of \<^typ>\<open>jval\<close> loading a dumped value gives the
  value back, so the store is modelled as holding the record itself. The expiry of a key
  (\<^verbatim>\<open>ex=ttl\<close>) is not modelled: a record is considered within its retention window.
  \<open>rq_jobs\<close> is the list of work items handed to the RQ queue.
\<close>

record RQBackend =
  redis :: "string \<rightharpoonup> jrecord"
  rq_jobs :: "(string \<times> string) list"

definition key :: "string \<Rightarrow> string" where
  "key job_id = ''job:'' @ job_id"

definition RQBackend_enqueue ::
  "RQBackend \<Rightarrow> string \<Rightarrow> jval \<Rightarrow> real \<Rightarrow> RQBackend \<times> string" where
  "RQBackend_enqueue self job_id payload now =
     (self\<lparr>redis := (redis self)(key job_id \<mapsto> initial_record job_id payload now),
            rq_jobs := rq_jobs self @ [(''project.app.worker.run_job'', job_id)]\<rparr>, job_id)"

definition RQBackend_get :: "RQBackend \<Rightarrow> string \<Rightarrow> jrecord option" where
  "RQBackend_get self job_id = redis self (key job_id)"

definition RQBackend_set :: "RQBackend \<Rightarrow> string \<Rightarrow> jrecord \<Rightarrow> RQBackend" where
  "RQBackend_set self job_id data = self\<lparr>redis := (redis self)(key job_id \<mapsto> data)\<rparr>"

subsection \<open>\<^verbatim>\<open>jobs.py\<close>: the lifecycle manager\<close>

text \<open>
  The protocol \<^verbatim>\<open>JobBackend\<close> has the two implementations above; the module global
  \<^verbatim>\<open>_backend\<close> is \<open>None\<close> or one of them, and is passed to every operation.
\<close>

datatype JobBackend = Memory MemoryBackend | RQ RQBackend

fun enqueue :: "JobBackend \<Rightarrow> string \<Rightarrow> jval \<Rightarrow> real \<Rightarrow> JobBackend \<times> string" where
  "enqueue (Memory m) job_id payload now =
     (case MemoryBackend_enqueue m job_id payload now of (m', j) \<Rightarrow> (Memory m', j))"
| "enqueue (RQ r) job_id payload now =
     (case RQBackend_enqueue r job_id payload now of (r', j) \<Rightarrow> (RQ r', j))"

fun get :: "JobBackend \<Rightarrow> string \<Rightarrow> jrecord option" where
  "get (Memory m) job_id = MemoryBackend_get m job_id"
| "get (RQ r) job_id = RQBackend_get r job_id"

fun set_job :: "JobBackend \<Rightarrow> string \<Rightarrow> jrecord \<Rightarrow> JobBackend" where
  "set_job (Memory m) job_id data = Memory (MemoryBackend_set m job_id data)"
| "set_job (RQ r) job_id data = RQ (RQBackend_set r job_id data)"

definition not_configured :: error where
  "not_configured = RuntimeError ''Job backend is not configured.''"

definition create_job ::
  "JobBackend option \<Rightarrow> string \<Rightarrow> jval \<Rightarrow> real \<Rightarrow> error + JobBackend \<times> string" where
  "create_job backend job_id payload now =
     (case backend of
        None \<Rightarrow> Inl not_configured
      | Some b \<Rightarrow> Inr (enqueue b job_id payload now))"

definition job_status :: "JobBackend option \<Rightarrow> string \<Rightarrow> error + jrecord option" where
  "job_status backend job_id =
     (case backend of
        None \<Rightarrow> Inl not_configured
      | Some b \<Rightarrow> Inr (get b job_id))"

text \<open>
  \<^verbatim>\<open>job_update(job_id, **fields)\<close>, with \<open>flds\<close> the dict of keyword arguments: a keyword
  \<^verbatim>\<open>job_id\<close> among them collides with the positional parameter, which Python
  rejects with a \<^verbatim>\<open>TypeError\<close> before the body runs. The result is the new backend and the returned dict \<open>current\<close>.
\<close>

definition job_update ::
  "JobBackend option \<Rightarrow> string \<Rightarrow> jrecord \<Rightarrow> real \<Rightarrow> error + JobBackend \<times> jrecord" where
  "job_update backend job_id flds now =
     (if ''job_id'' \<in> dom flds
      then Inl (TypeError ''job_update() got multiple values for argument job_id'')
      else case backend of
        None \<Rightarrow> Inl not_configured
      | Some b \<Rightarrow>
          let current = (case get b job_id of None \<Rightarrow> Map.empty | Some c \<Rightarrow> c);
              current = (if ''job_id'' \<in> dom current then current
                         else current(''job_id'' \<mapsto> JStr job_id));
              current = current ++ flds;
              current = current(''updated_at'' \<mapsto> JNum now)
          in Inr (set_job b job_id current, current))"

subsection \<open>\<^verbatim>\<open>worker.py\<close>: the update callback of \<open>run_job\<close>\<close>

text \<open>
  \<open>run_job\<close> builds its own callback over the RQ backend instead of calling
  \<open>job_update\<close>: it reads the record, merges the keyword arguments and writes it back.
  It does not read the clock.
\<close>

definition run_job_update :: "RQBackend \<Rightarrow> string \<Rightarrow> jrecord \<Rightarrow> RQBackend" where
  "run_job_update backend job_id flds =
     (let current = (case RQBackend_get backend job_id of None \<Rightarrow> Map.empty | Some c \<Rightarrow> c);
          current = current ++ flds
      in RQBackend_set backend job_id current)"

text \<open>What a reader of the store sees in field \<open>k\<close> of job \<open>job_id\<close>.\<close>

definition stored_field :: "JobBackend \<Rightarrow> string \<Rightarrow> string \<Rightarrow> jval option" where
  "stored_field b job_id k = (case get b job_id of None \<Rightarrow> None | Some r \<Rightarrow> r k)"

section \<open>\<^verbatim>\<open>ratelimit.py\<close>: the sliding-window limiter\<close>

text \<open>
  \<^verbatim>\<open>_hits\<close> is a \<^verbatim>\<open>defaultdict(list)\<close>: an identifier that was never seen reads as the
  empty list. \<open>allow\<close> takes the table and the clock reading and returns the answer and
  the new table.
\<close>

type_synonym hits = "string \<Rightarrow> real list"

definition WINDOW_SECONDS :: int where
  "WINDOW_SECONDS = 600"

definition LIMIT :: int where
  "LIMIT = 10"

text \<open>
  \<^verbatim>\<open>while queue and now - queue[0] > window: queue.pop(0)\<close>, on the list \<open>q\<close> of the
  identifier.
\<close>

fun drop_expired :: "real \<Rightarrow> int \<Rightarrow> real list \<Rightarrow> real list" where
  "drop_expired now window [] = []"
| "drop_expired now window (t # q) =
     (if now - t > real_of_int window then drop_expired now window q else t # q)"

definition allow :: "hits \<Rightarrow> string \<Rightarrow> int \<Rightarrow> int \<Rightarrow> real \<Rightarrow> bool \<times> hits" where
  "allow hits identifier limit window now =
     (let q = drop_expired now window (hits identifier)
      in if int (length q) \<ge> limit
         then (False, hits(identifier := q))
         else (True, hits(identifier := q @ [now])))"

definition reset :: hits where
  "reset = (\<lambda>identifier. [])"

text \<open>
  A sequence of calls \<open>(identifier, now)\<close> run in order; the result lists the calls that
  were admitted.
\<close>

fun admissions :: "hits \<Rightarrow> int \<Rightarrow> int \<Rightarrow> (string \<times> real) list \<Rightarrow> (string \<times> real) list" where
  "admissions hits limit window [] = []"
| "admissions hits limit window ((identifier, now) # calls) =
     (case allow hits identifier limit window now of
        (ok, hits') \<Rightarrow>
          (if ok then [(identifier, now)] else []) @ admissions hits' limit window calls)"

text \<open>The admissions of \<open>identifier\<close> that fall in the closed interval \<open>[a, a + window]\<close>.\<close>

definition in_window :: "string \<Rightarrow> real \<Rightarrow> int \<Rightarrow> (string \<times> real) list \<Rightarrow> (string \<times> real) list" where
  "in_window identifier a window adm =
     filter (\<lambda>(j, t). j = identifier \<and> a \<le> t \<and> t \<le> a + real_of_int window) adm"

section \<open>\<^verbatim>\<open>paths.py\<close>: \<open>safe_filename\<close>\<close>

text \<open>
  A Python \<^verbatim>\<open>str\<close> is a sequence of Unicode code points, modelled as a list of natural
  numbers; \<open>ustr\<close> embeds an ASCII literal. The class \<^verbatim>\<open>\w\<close> of a \<^verbatim>\<open>str\<close> pattern is
  \<^verbatim>\<open>[a-zA-Z0-9_]\<close> on ASCII and the alphanumeric code points of the Unicode database
  beyond it; that table is the parameter \<open>uni\<close>.
\<close>

type_synonym ustr = "nat list"

definition ustr :: "string \<Rightarrow> ustr" where
  "ustr s = map of_char s"

definition ascii_word :: "nat \<Rightarrow> bool" where
  "ascii_word c = ((48 \<le> c \<and> c \<le> 57) \<or> (65 \<le> c \<and> c \<le> 90) \<or> c = 95 \<or> (97 \<le> c \<and> c \<le> 122))"

definition word_char :: "(nat \<Rightarrow> bool) \<Rightarrow> nat \<Rightarrow> bool" where
  "word_char uni c = (if c < 128 then ascii_word c else uni c)"

text \<open>
  The characters that \<^verbatim>\<open>[^\w\-. ()\\u0400-\\u04FF]\<close> does not match: word characters,
  dash (45), dot (46), space (32), the parentheses (40, 41) and the Cyrillic block.
\<close>

definition safe_char :: "(nat \<Rightarrow> bool) \<Rightarrow> nat \<Rightarrow> bool" where
  "safe_char uni c =
     (word_char uni c \<or> c = 45 \<or> c = 46 \<or> c = 32 \<or> c = 40 \<or> c = 41
      \<or> (1024 \<le> c \<and> c \<le> 1279))"

text \<open>\<^verbatim>\<open>SAFE_FILENAME_RE.sub("_", name)\<close>\<close>

definition SAFE_FILENAME_RE_sub :: "(nat \<Rightarrow> bool) \<Rightarrow> ustr \<Rightarrow> ustr" where
  "SAFE_FILENAME_RE_sub uni name = map (\<lambda>c. if safe_char uni c then c else 95) name"

text \<open>\<^verbatim>\<open>sub in s\<close>\<close>

fun contains :: "ustr \<Rightarrow> ustr \<Rightarrow> bool" where
  "contains sub [] = (sub = [])"
| "contains sub (x # xs) = (take (length sub) (x # xs) = sub \<or> contains sub xs)"

text \<open>
  \<^verbatim>\<open>s.replace(old, new)\<close>: the occurrences of \<open>old\<close> are replaced from left to right
  without overlap (an empty \<open>old\<close> matches between all characters).
\<close>

function str_replace :: "ustr \<Rightarrow> ustr \<Rightarrow> ustr \<Rightarrow> ustr" where
  "str_replace old new s =
     (if old = [] then new @ concat (map (\<lambda>c. c # new) s)
      else if s = [] then []
      else if take (length old) s = old
        then new @ str_replace old new (drop (length old) s)
      else hd s # str_replace old new (tl s))"
  by pat_completeness auto
termination
  by (relation "measure (\<lambda>(old, new, s). length s)") auto

declare str_replace.simps [simp del]

lemma str_replace_Nil: "old \<noteq> [] \<Longrightarrow> str_replace old new [] = []"
  by (simp add: str_replace.simps [of old new "[]"])

lemma str_replace_match:
  "old \<noteq> [] \<Longrightarrow> take (length old) s = old
     \<Longrightarrow> str_replace old new s = new @ str_replace old new (drop (length old) s)"
proof -
  assume a: "old \<noteq> []" "take (length old) s = old"
  then have "s \<noteq> []" by auto
  with a show ?thesis by (subst str_replace.simps) simp
qed

lemma str_replace_nomatch:
  "old \<noteq> [] \<Longrightarrow> take (length old) (x # xs) \<noteq> old
     \<Longrightarrow> str_replace old new (x # xs) = x # str_replace old new xs"
  by (simp add: str_replace.simps [of old new "x # xs"])

lemma take_eq_length: "take (length old) s = old \<Longrightarrow> length old \<le> length s"
proof -
  assume "take (length old) s = old"
  then have "length (take (length old) s) = length old" by simp
  then show ?thesis by simp
qed

lemma str_replace_not_longer:
  "old \<noteq> [] \<Longrightarrow> length new \<le> length old
     \<Longrightarrow> length (str_replace old new s) \<le> length s"
proof (induction old new s rule: str_replace.induct)
  case (1 old new s)
  show ?case
  proof (cases "s = []")
    case True
    with "1.prems"(1) show ?thesis by (simp add: str_replace_Nil)
  next
    case ne: False
    show ?thesis
    proof (cases "take (length old) s = old")
      case True
      from "1.IH"(1) [OF "1.prems"(1) ne True "1.prems"]
      have "length (str_replace old new (drop (length old) s)) \<le> length s - length old"
        by simp
      moreover have
        "str_replace old new s = new @ str_replace old new (drop (length old) s)"
        by (rule str_replace_match [OF "1.prems"(1) True])
      ultimately show ?thesis
        using take_eq_length [OF True] "1.prems"(2) by simp
    next
      case False
      from "1.IH"(2) [OF "1.prems"(1) ne False "1.prems"]
      have "length (str_replace old new (tl s)) \<le> length s - 1" by simp
      moreover from False ne "1.prems"(1) have
        "str_replace old new s = hd s # str_replace old new (tl s)"
        by (cases s) (simp_all add: str_replace_nomatch)
      ultimately show ?thesis using ne by (cases s) simp_all
    qed
  qed
qed

lemma str_replace_shorter:
  "old \<noteq> [] \<Longrightarrow> length new < length old \<Longrightarrow> contains old s
     \<Longrightarrow> length (str_replace old new s) < length s"
proof (induction s)
  case Nil
  then show ?case by simp
next
  case (Cons x xs)
  show ?case
  proof (cases "take (length old) (x # xs) = old")
    case True
    have "length (str_replace old new (drop (length old) (x # xs)))
        \<le> length (x # xs) - length old"
      using str_replace_not_longer [of old new "drop (length old) (x # xs)"] Cons.prems(1,2)
      by simp
    moreover have
      "str_replace old new (x # xs)
         = new @ str_replace old new (drop (length old) (x # xs))"
      by (rule str_replace_match [OF Cons.prems(1) True])
    ultimately show ?thesis
      using take_eq_length [OF True] Cons.prems(2) by simp
  next
    case False
    with Cons.prems(3) have "contains old xs" by simp
    from Cons.IH [OF Cons.prems(1,2) this]
    have "length (str_replace old new xs) < length xs" .
    moreover have
      "str_replace old new (x # xs) = x # str_replace old new xs"
      by (rule str_replace_nomatch [OF Cons.prems(1) False])
    ultimately show ?thesis by simp
  qed
qed

text \<open>\<^verbatim>\<open>while ".." in sanitized: sanitized = sanitized.replace("..", "_")\<close>\<close>

function dotdot_loop :: "ustr \<Rightarrow> ustr" where
  "dotdot_loop s =
     (if contains (ustr ''..'') s
      then dotdot_loop (str_replace (ustr ''..'') (ustr ''_'') s)
      else s)"
  by pat_completeness auto
termination
  by (relation "measure length") (auto simp: str_replace_shorter ustr_def)

declare dotdot_loop.simps [simp del]

text \<open>\<^verbatim>\<open>s.strip(chars)\<close>\<close>

definition strip :: "ustr \<Rightarrow> ustr \<Rightarrow> ustr" where
  "strip chars s =
     rev (dropWhile (\<lambda>c. c \<in> set chars) (rev (dropWhile (\<lambda>c. c \<in> set chars) s)))"

text \<open>The steps of \<open>safe_filename\<close> between the substitution of the fallback and the
  final \<^verbatim>\<open>sanitized or fallback\<close>.\<close>

definition sanitized :: "(nat \<Rightarrow> bool) \<Rightarrow> ustr \<Rightarrow> ustr" where
  "sanitized uni name =
     strip (ustr '' ._'')
       (str_replace (ustr ''__'') (ustr ''_'')
          (dotdot_loop (SAFE_FILENAME_RE_sub uni name)))"

definition safe_filename :: "(nat \<Rightarrow> bool) \<Rightarrow> ustr option \<Rightarrow> ustr \<Rightarrow> ustr" where
  "safe_filename uni name fallback =
     (let name = (case name of None \<Rightarrow> fallback | Some n \<Rightarrow> if n = [] then fallback else n);
          s = sanitized uni name
      in if s = [] then fallback else s)"

section \<open>\<^verbatim>\<open>cleanup.py\<close>: the sweep of the temporary directory\<close>

text \<open>
  The file system below a path is a tree: a file with its modification time, or a
  directory with its modification time and its entries in the order \<^verbatim>\<open>iterdir\<close> lists
  them. The operations return what is left at the path (\<open>None\<close> when it is gone). The
  file system is taken to work: \<^verbatim>\<open>unlink\<close>, \<^verbatim>\<open>stat\<close> and \<^verbatim>\<open>iterdir\<close> succeed, and
  \<^verbatim>\<open>rmdir\<close> fails with an \<^verbatim>\<open>OSError\<close> exactly on a directory that is not empty.
\<close>

datatype node = File real | Dir real "(string \<times> node) list"

fun st_mtime :: "node \<Rightarrow> real" where
  "st_mtime (File m) = m"
| "st_mtime (Dir m entries) = m"

text \<open>
  \<open>delete_path\<close>: a file is unlinked; of a directory every child is deleted and then the
  directory removed. The \<^verbatim>\<open>OSError\<close> of \<^verbatim>\<open>rmdir\<close> on a directory that still has entries
  is swallowed and leaves the directory with them.
\<close>

fun delete_path :: "node \<Rightarrow> node option"
  and delete_children :: "(string \<times> node) list \<Rightarrow> (string \<times> node) list" where
  "delete_path (File m) = None"
| "delete_path (Dir m entries) =
     (case delete_children entries of
        [] \<Rightarrow> None
      | rest \<Rightarrow> Some (Dir m rest))"
| "delete_children [] = []"
| "delete_children ((name, child) # entries) =
     (case delete_path child of
        None \<Rightarrow> delete_children entries
      | Some child' \<Rightarrow> (name, child') # delete_children entries)"

text \<open>
  The loop of \<open>cleanup_expired_files\<close> over the generator \<open>_iter_all_paths\<close>: the
  generator yields the paths below a directory child by child, the content of a child
  directory before the child itself, and the loop body runs on each path as it is
  yielded. \<open>visit\<close> is what happens to one child: its content is visited, then its age is
  taken and it is deleted when the age exceeds the TTL. Removing an entry from a
  directory makes the file system set the modification time of that directory to the
  time of the removal, for which the clock reading \<open>now\<close> of the sweep stands.
\<close>

fun visit :: "real \<Rightarrow> int \<Rightarrow> node \<Rightarrow> node option"
  and iter_all_paths :: "real \<Rightarrow> int \<Rightarrow> (string \<times> node) list \<Rightarrow> (string \<times> node) list" where
  "visit now ttl_seconds (File m) =
     (if now - m > real_of_int ttl_seconds then delete_path (File m) else Some (File m))"
| "visit now ttl_seconds (Dir m entries) =
     (let entries' = iter_all_paths now ttl_seconds entries;
          m' = (if length entries' < length entries then now else m)
      in if now - m' > real_of_int ttl_seconds
         then delete_path (Dir m' entries')
         else Some (Dir m' entries'))"
| "iter_all_paths now ttl_seconds [] = []"
| "iter_all_paths now ttl_seconds ((name, child) # entries) =
     (case visit now ttl_seconds child of
        None \<Rightarrow> iter_all_paths now ttl_seconds entries
      | Some child' \<Rightarrow> (name, child') # iter_all_paths now ttl_seconds entries)"

text \<open>
  \<open>cleanup_expired_files\<close>: nothing happens when the base directory does not exist; the
  base directory itself is never yielded. On a base path that is a file \<^verbatim>\<open>iterdir\<close>
  raises.
\<close>

definition cleanup_expired_files :: "node option \<Rightarrow> int \<Rightarrow> real \<Rightarrow> error + node option" where
  "cleanup_expired_files base_dir ttl_seconds now =
     (case base_dir of
        None \<Rightarrow> Inr None
      | Some (File m) \<Rightarrow> Inl (OSError ''Not a directory'')
      | Some (Dir m entries) \<Rightarrow>
          (let entries' = iter_all_paths now ttl_seconds entries
           in Inr (Some (Dir (if length entries' < length entries then now else m) entries'))))"

text \<open>Looking a path up below a node.\<close>

fun lookup_path :: "node \<Rightarrow> string list \<Rightarrow> node option" where
  "lookup_path n [] = Some n"
| "lookup_path (File m) (name # path) = None"
| "lookup_path (Dir m entries) (name # path) =
     (case map_of entries name of None \<Rightarrow> None | Some child \<Rightarrow> lookup_path child path)"

section \<open>\<^verbatim>\<open>worker.py\<close>: the processing pipeline\<close>

text \<open>
  The pipeline calls the downloader and the converter, which run \<^verbatim>\<open>yt-dlp\<close> and
  \<^verbatim>\<open>ffmpeg\<close>. What they do in one run is the record \<open>run_env\<close>: the outcome of each call,
  an exception (its text) or a value, and the progress callbacks that \<^verbatim>\<open>yt-dlp\<close> fires
  during the download, in order. The pipeline is then a function from the payload and
  the environment to the \<^verbatim>\<open>update(...)\<close> calls it issues, in order, and the exception
  that leaves it, if any. The message texts are transliterated; numbers formatted into a
  message are left out.
\<close>

definition ALLOWED_FORMATS :: "string set" where
  "ALLOWED_FORMATS = {''mp4'', ''webm'', ''mkv'', ''mp3'', ''m4a'', ''ogg'', ''source''}"

definition QUALITY_PRESETS :: "string \<rightharpoonup> int" where
  "QUALITY_PRESETS =
     [''360p'' \<mapsto> 360, ''480p'' \<mapsto> 480, ''720p'' \<mapsto> 720, ''1024p'' \<mapsto> 1024, ''1080p'' \<mapsto> 1080]"

definition DEFAULT_QUALITY :: string where
  "DEFAULT_QUALITY = ''720p''"

text \<open>\<^verbatim>\<open>QUALITY_PRESETS.get(quality, QUALITY_PRESETS[DEFAULT_QUALITY])\<close>; a dict is not hashable.\<close>

definition quality_to_height :: "jval \<Rightarrow> error + int" where
  "quality_to_height quality =
     (case quality of
        JDict kvs \<Rightarrow> Inl (TypeError ''unhashable type: dict'')
      | JStr s \<Rightarrow> Inr (case QUALITY_PRESETS s of Some h \<Rightarrow> h | None \<Rightarrow> 720)
      | _ \<Rightarrow> Inr 720)"

text \<open>\<^verbatim>\<open>str.lower\<close> and \<^verbatim>\<open>str.upper\<close> on ASCII text.\<close>

definition lower :: "string \<Rightarrow> string" where
  "lower s = map (\<lambda>c. if 65 \<le> (of_char c :: nat) \<and> (of_char c :: nat) \<le> 90
                      then char_of (of_char c + 32 :: nat) else c) s"

definition upper :: "string \<Rightarrow> string" where
  "upper s = map (\<lambda>c. if 97 \<le> (of_char c :: nat) \<and> (of_char c :: nat) \<le> 122
                      then char_of (of_char c - 32 :: nat) else c) s"

definition guess_mimetype :: "string \<Rightarrow> string" where
  "guess_mimetype ext =
     (let ext = lower (dropWhile (\<lambda>c. c = CHR ''.'') ext)
      in if ext = ''mp4'' \<or> ext = ''webm'' then ''video/'' @ ext
         else if ext = ''mkv'' then ''video/x-matroska''
         else if ext = ''mp3'' then ''audio/mpeg''
         else if ext = ''m4a'' then ''audio/mp4''
         else if ext = ''ogg'' then ''audio/ogg''
         else ''application/octet-stream'')"

text \<open>A payload is a dict; \<open>dget\<close> is \<^verbatim>\<open>payload.get(k)\<close> and \<open>py_or\<close> is \<^verbatim>\<open>a or b\<close>.\<close>

definition dget :: "(string \<times> jval) list \<Rightarrow> string \<Rightarrow> jval" where
  "dget d k = (case map_of d k of None \<Rightarrow> JNone | Some v \<Rightarrow> v)"

definition py_or :: "jval \<Rightarrow> jval \<Rightarrow> jval" where
  "py_or a b = (if truthy a then a else b)"

text \<open>The dict that \<open>downloader.probe\<close> returns.\<close>

record probe_meta =
  title :: jval
  duration :: jval
  thumbnail :: jval
  estimated_size_mb :: "real option"

definition meta_dict :: "probe_meta \<Rightarrow> jval" where
  "meta_dict meta =
     JDict [(''title'', title meta), (''duration'', duration meta),
            (''thumbnail'', thumbnail meta),
            (''estimated_size_mb'',
               case estimated_size_mb meta of None \<Rightarrow> JNone | Some x \<Rightarrow> JNum x)]"

text \<open>The dict that \<^verbatim>\<open>yt-dlp\<close> passes to a progress hook: the three keys the hook reads.\<close>

record hook_data =
  total_bytes :: "real option"
  total_bytes_estimate :: "real option"
  downloaded_bytes :: "real option"

record run_env =
  max_file_size_mb :: int
  probe_outcome :: "string + probe_meta"
  hook_calls :: "hook_data list"
  download_outcome :: "string + string"
  size_outcome :: "string + real"
  convert_outcome :: "string + string"
  path_name :: "string \<Rightarrow> string"
  path_suffix :: "string \<Rightarrow> string"

text \<open>\<^verbatim>\<open>x or y\<close> on an optional number, and \<^verbatim>\<open>int(x)\<close>, which truncates towards zero.\<close>

definition num_or :: "real option \<Rightarrow> real \<Rightarrow> real" where
  "num_or x y = (case x of None \<Rightarrow> y | Some v \<Rightarrow> if v = 0 then y else v)"

definition py_int :: "real \<Rightarrow> int" where
  "py_int x = (if 0 \<le> x then \<lfloor>x\<rfloor> else \<lceil>x\<rceil>)"

text \<open>
  Python's \<^verbatim>\<open>float\<close> is the IEEE 754 binary64 format: the result of \<^verbatim>\<open>/\<close>, \<^verbatim>\<open>*\<close> and \<^verbatim>\<open>+\<close>
  is the exact result rounded to the nearest number with a significand of 53 bits, a
  tie going to the even significand. \<open>fl\<close> is that rounding, for results in the normal
  range of the format (no overflow and no subnormal numbers, which byte counts do not
  reach). \<open>bit_length\<close> is \<^verbatim>\<open>int.bit_length\<close>, and \<open>float_exponent x\<close> is the exponent \<open>e\<close> with
  \<open>2 ^ e \<le> x < 2 ^ (e + 1)\<close> for a positive \<open>x\<close>.
\<close>

function bit_length :: "nat \<Rightarrow> nat" where
  "bit_length n = (if n = 0 then 0 else Suc (bit_length (n div 2)))"
  by pat_completeness auto
termination
  by (relation "measure id") auto

declare bit_length.simps [simp del]

definition float_exponent :: "real \<Rightarrow> int" where
  "float_exponent x =
     (if 1 \<le> x then int (bit_length (nat \<lfloor>x\<rfloor>)) - 1
      else - int (bit_length (nat (\<lceil>1 / x\<rceil> - 1))))"

definition pow2 :: "int \<Rightarrow> real" where
  "pow2 k = (if 0 \<le> k then 2 ^ nat k else 1 / 2 ^ nat (- k))"

definition round_half_even :: "real \<Rightarrow> int" where
  "round_half_even x =
     (let f = \<lfloor>x\<rfloor>; r = x - of_int f
      in if r < 1 / 2 then f else if 1 / 2 < r then f + 1 else if even f then f else f + 1)"

definition fl :: "real \<Rightarrow> real" where
  "fl x =
     (if x = 0 then 0
      else sgn x * of_int (round_half_even (\<bar>x\<bar> * pow2 (52 - float_exponent \<bar>x\<bar>)))
             * pow2 (float_exponent \<bar>x\<bar> - 52))"

text \<open>
  The hook of \<open>process_job_async\<close>: the progress value it writes, if it writes one:
  \<^verbatim>\<open>int(15 + (done / total) * 70)\<close> in floats, clamped to 20..90.
\<close>

definition hook_percent :: "hook_data \<Rightarrow> int option" where
  "hook_percent data =
     (let total = num_or (total_bytes data) (num_or (total_bytes_estimate data) 0);
          done_bytes = num_or (downloaded_bytes data) 0
      in if total \<noteq> 0
         then Some (min 90 (max 20 (py_int (fl (15 + fl (fl (done_bytes / total) * 70))))))
         else None)"

definition hook :: "hook_data \<Rightarrow> jrecord option" where
  "hook data = map_option (\<lambda>percent. [''progress'' \<mapsto> JNum (real_of_int percent)])
                 (hook_percent data)"

definition hook_percents :: "run_env \<Rightarrow> int list" where
  "hook_percents e = List.map_filter hook_percent (hook_calls e)"

text \<open>\<^verbatim>\<open>update(status="error", message=str(exc), error=str(exc))\<close>\<close>

definition error_update :: "string \<Rightarrow> jrecord" where
  "error_update msg =
     [''status'' \<mapsto> JStr ''error'', ''message'' \<mapsto> JStr msg, ''error'' \<mapsto> JStr msg]"

definition unsupported_update :: "string \<Rightarrow> jrecord" where
  "unsupported_update want =
     [''status'' \<mapsto> JStr ''error'',
      ''message'' \<mapsto> JStr (''Format '' @ want @ '' ne podderzhivaetsya.''),
      ''error'' \<mapsto> JStr ''unsupported_format'']"

definition done_update :: "run_env \<Rightarrow> string \<Rightarrow> jval \<Rightarrow> jrecord" where
  "done_update e final_path meta =
     (let filename = path_name e final_path;
          mimetype = guess_mimetype (path_suffix e final_path)
      in [''status'' \<mapsto> JStr ''done'',
          ''message'' \<mapsto> JStr ''Fajl gotov k skachivaniyu.'',
          ''progress'' \<mapsto> JNum 100,
          ''result'' \<mapsto> JDict [(''file_path'', JStr final_path), (''filename'', JStr filename),
                              (''mimetype'', JStr mimetype), (''meta'', meta)],
          ''file_path'' \<mapsto> JStr final_path,
          ''filename'' \<mapsto> JStr filename,
          ''mimetype'' \<mapsto> JStr mimetype])"

text \<open>From the end of the download: the size check, the conversion and the result.\<close>

definition convert_stage :: "run_env \<Rightarrow> string \<Rightarrow> string \<Rightarrow> jval \<Rightarrow> jrecord list" where
  "convert_stage e want source_path meta =
     (if want = ''source'' then [done_update e source_path meta]
      else if want \<in> ALLOWED_FORMATS then
        [''status'' \<mapsto> JStr ''converting'',
         ''message'' \<mapsto> JStr (''Konvertaciya v '' @ upper want @ ''...''),
         ''progress'' \<mapsto> JNum (if want \<in> {''mp4'', ''webm'', ''mkv''} then 95 else 92)]
        # (case convert_outcome e of
             Inl exc \<Rightarrow> [error_update exc]
           | Inr final_path \<Rightarrow> [done_update e final_path meta])
      else [unsupported_update want])"

definition download_stage :: "run_env \<Rightarrow> string \<Rightarrow> jval \<Rightarrow> jrecord list" where
  "download_stage e want meta =
     [''status'' \<mapsto> JStr ''downloading'',
      ''message'' \<mapsto> JStr ''Skachivayu mediakontent...'',
      ''progress'' \<mapsto> JNum 15]
     # List.map_filter hook (hook_calls e)
     @ (case download_outcome e of
          Inl exc \<Rightarrow> [error_update exc]
        | Inr source_path \<Rightarrow>
            (case size_outcome e of
               Inl exc \<Rightarrow> [error_update exc]
             | Inr size_mb \<Rightarrow>
                 if size_mb \<noteq> 0 \<and> size_mb > real_of_int (max_file_size_mb e)
                 then [error_update ''Razmer fajla prevyshaet limit.'']
                 else convert_stage e want source_path meta))"

definition probe_stage :: "run_env \<Rightarrow> string \<Rightarrow> jrecord list" where
  "probe_stage e want =
     [''status'' \<mapsto> JStr ''fetching'',
      ''message'' \<mapsto> JStr ''Poluchayu metadannye'',
      ''progress'' \<mapsto> JNum 5]
     # (case probe_outcome e of
          Inl exc \<Rightarrow> [error_update exc]
        | Inr meta \<Rightarrow>
            [''meta'' \<mapsto> meta_dict meta]
            # (if (case estimated_size_mb meta of
                     None \<Rightarrow> False
                   | Some est \<Rightarrow> est > real_of_int (max_file_size_mb e))
               then [error_update ''Ocenochnyj razmer prevyshaet limit.'']
               else download_stage e want (meta_dict meta)))"

text \<open>
  \<open>process_job_async\<close>. The checks before the \<^verbatim>\<open>try\<close> can raise: \<^verbatim>\<open>.lower()\<close> on a value
  that is not a string, and \<open>quality_to_height\<close> on a dict.
\<close>

definition process_job_async ::
  "string \<Rightarrow> (string \<times> jval) list \<Rightarrow> run_env \<Rightarrow> jrecord list \<times> error option" where
  "process_job_async job_id payload e =
     (if \<not> truthy (dget payload ''url'')
      then ([[''status'' \<mapsto> JStr ''error'', ''message'' \<mapsto> JStr ''URL otsutstvuet.'',
              ''error'' \<mapsto> JStr ''missing_url'']], None)
      else case py_or (dget payload ''want'') (py_or (dget payload ''format'') (JStr ''mp4'')) of
        JStr w \<Rightarrow>
          (let want = lower w
           in if want \<notin> ALLOWED_FORMATS then ([unsupported_update want], None)
              else case quality_to_height
                     (case map_of payload ''quality'' of
                        None \<Rightarrow> JStr DEFAULT_QUALITY | Some q \<Rightarrow> q) of
                Inl err \<Rightarrow> ([], Some err)
              | Inr target_height \<Rightarrow> (probe_stage e want, None))
      | _ \<Rightarrow> ([], Some (AttributeError ''object has no attribute lower'')))"

text \<open>\<^verbatim>\<open>str(exc)\<close>\<close>

fun str_error :: "error \<Rightarrow> string" where
  "str_error (RuntimeError m) = m"
| "str_error (TypeError m) = m"
| "str_error (AttributeError m) = m"
| "str_error (KeyError m) = m"
| "str_error (OSError m) = m"
| "str_error (HTTPException code m) = m"

text \<open>
  The two workers. Both read the record, take its payload (\<^verbatim>\<open>job.get("payload") or {}\<close>;
  a payload that is true and not a dict makes \<^verbatim>\<open>payload.get\<close> raise) and run the
  pipeline. \<open>start_worker\<close> (\<^verbatim>\<open>main.py\<close>) catches an exception that leaves the pipeline
  and writes it as an error; \<open>run_job\<close> lets it pass and writes nothing more. The result
  is the list of updates each issues for the job.
\<close>

definition pipeline_of ::
  "string \<Rightarrow> jrecord \<Rightarrow> run_env \<Rightarrow> jrecord list \<times> error option" where
  "pipeline_of job_id job e =
     (case dict_get job ''payload'' of
        JDict payload \<Rightarrow> process_job_async job_id payload e
      | v \<Rightarrow> if truthy v then ([], Some (AttributeError ''object has no attribute get''))
             else process_job_async job_id [] e)"

definition start_worker :: "MemoryBackend \<Rightarrow> string \<Rightarrow> run_env \<Rightarrow> jrecord list" where
  "start_worker backend job_id e =
     (case job_status (Some (Memory backend)) job_id of
        Inr (Some job) \<Rightarrow>
          if job = Map.empty then []
          else (case pipeline_of job_id job e of
                  (updates, None) \<Rightarrow> updates
                | (updates, Some exc) \<Rightarrow> updates @ [error_update (str_error exc)])
      | _ \<Rightarrow> [])"

definition run_job :: "RQBackend \<Rightarrow> string \<Rightarrow> run_env \<Rightarrow> jrecord list" where
  "run_job backend job_id e =
     (case RQBackend_get backend job_id of
        None \<Rightarrow> []
      | Some job \<Rightarrow> if job = Map.empty then [] else fst (pipeline_of job_id job e))"

fun worker_updates :: "JobBackend \<Rightarrow> string \<Rightarrow> run_env \<Rightarrow> jrecord list" where
  "worker_updates (Memory m) job_id e = start_worker m job_id e"
| "worker_updates (RQ r) job_id e = run_job r job_id e"

text \<open>
  One update issued by the worker: through \<open>job_update\<close> in \<open>start_worker\<close>, through the
  callback of \<open>run_job\<close> in the RQ worker.
\<close>

fun worker_update :: "JobBackend \<Rightarrow> string \<Rightarrow> jrecord \<Rightarrow> real \<Rightarrow> JobBackend" where
  "worker_update (Memory m) job_id flds now =
     (case job_update (Some (Memory m)) job_id flds now of
        Inr (b, current) \<Rightarrow> b
      | Inl exc \<Rightarrow> Memory m)"
| "worker_update (RQ r) job_id flds now = RQ (run_job_update r job_id flds)"

section \<open>\<^verbatim>\<open>routes/download.py\<close> and the life of a job\<close>

text \<open>
  The routes that write to a job record. The file system is not part of this model:
  \<^verbatim>\<open>os.remove\<close> and \<open>delete_path\<close> are taken to return (a missing file is swallowed by
  both). A subscript on a missing key or on a value that is not a dict raises.
\<close>

definition deleted_update :: "string \<Rightarrow> jrecord" where
  "deleted_update msg =
     [''result'' \<mapsto> JNone, ''status'' \<mapsto> JStr ''deleted'', ''message'' \<mapsto> JStr msg]"

definition delete_file :: "JobBackend option \<Rightarrow> string \<Rightarrow> real \<Rightarrow> error + JobBackend" where
  "delete_file backend job_id now =
     (case job_status backend job_id of
        Inl exc \<Rightarrow> Inl exc
      | Inr None \<Rightarrow> Inl (HTTPException 404 ''not found'')
      | Inr (Some job) \<Rightarrow>
          if job = Map.empty \<or> dict_get job ''result'' = JNone
          then Inl (HTTPException 404 ''not found'')
          else (case dict_get job ''result'' of
                  JDict result \<Rightarrow>
                    (case map_of result ''file_path'' of
                       None \<Rightarrow> Inl (KeyError ''file_path'')
                     | Some path \<Rightarrow>
                         (case job_update backend job_id (deleted_update ''Fajl udalyon'') now of
                            Inl exc \<Rightarrow> Inl exc
                          | Inr (b, current) \<Rightarrow> Inr b))
                | _ \<Rightarrow> Inl (TypeError ''result is not subscriptable'')))"

text \<open>
  \<open>file_route\<close> is the route \<^verbatim>\<open>file\<close>: it answers with the file and schedules \<open>_cleanup_after_download\<close> as a background
  task; the result is the \<open>file_path\<close> the task is scheduled with.
\<close>

definition file_route :: "JobBackend option \<Rightarrow> string \<Rightarrow> error + jval" where
  "file_route backend job_id =
     (case job_status backend job_id of
        Inl exc \<Rightarrow> Inl exc
      | Inr None \<Rightarrow> Inl (HTTPException 404 ''file not ready'')
      | Inr (Some job) \<Rightarrow>
          if job = Map.empty \<or> dict_get job ''result'' = JNone
          then Inl (HTTPException 404 ''file not ready'')
          else (case job ''status'' of
                  None \<Rightarrow> Inl (KeyError ''status'')
                | Some st \<Rightarrow>
                    if st \<noteq> JStr ''done'' then Inl (HTTPException 404 ''file not ready'')
                    else (case dict_get job ''result'' of
                            JDict result \<Rightarrow>
                              (case (map_of result ''file_path'', map_of result ''mimetype'',
                                     map_of result ''filename'') of
                                 (Some path, Some mimetype, Some filename) \<Rightarrow> Inr path
                               | _ \<Rightarrow> Inl (KeyError ''result''))
                          | _ \<Rightarrow> Inl (TypeError ''result is not subscriptable''))))"

definition cleanup_after_download ::
  "JobBackend option \<Rightarrow> string \<Rightarrow> jval \<Rightarrow> real \<Rightarrow> error + JobBackend" where
  "cleanup_after_download backend job_id file_path now =
     (case job_update backend job_id (deleted_update ''Fajl udalyon posle skachivaniya'') now of
        Inl exc \<Rightarrow> Inl exc
      | Inr (b, current) \<Rightarrow> Inr b)"

text \<open>
  The life of one job. After \<open>create_job\<close> the worker picks the job up and issues the
  updates of the pipeline one by one; between any two of them, and after them, requests
  to the routes and the scheduled background tasks run. An event is one such action, at
  its clock reading; a sequence of events is a schedule. \<open>sys_pending\<close> are the updates
  the worker has not issued yet (a cancelled worker never issues them), \<open>sys_tasks\<close> the
  scheduled \<open>_cleanup_after_download\<close> tasks. Each update is one step (the read and the
  write of \<open>job_update\<close> are not interleaved with another writer).
\<close>

record system =
  sys_backend :: JobBackend
  sys_pending :: "jrecord list"
  sys_tasks :: "jval list"

datatype event = Worker real | DeleteFile real | GetFile | Cleanup real

fun step :: "string \<Rightarrow> system \<Rightarrow> event \<Rightarrow> system" where
  "step job_id s (Worker now) =
     (case sys_pending s of
        [] \<Rightarrow> s
      | u # us \<Rightarrow> s\<lparr>sys_backend := worker_update (sys_backend s) job_id u now,
                     sys_pending := us\<rparr>)"
| "step job_id s (DeleteFile now) =
     (case delete_file (Some (sys_backend s)) job_id now of
        Inl exc \<Rightarrow> s
      | Inr b \<Rightarrow> s\<lparr>sys_backend := b\<rparr>)"
| "step job_id s GetFile =
     (case file_route (Some (sys_backend s)) job_id of
        Inl exc \<Rightarrow> s
      | Inr path \<Rightarrow> s\<lparr>sys_tasks := sys_tasks s @ [path]\<rparr>)"
| "step job_id s (Cleanup now) =
     (case sys_tasks s of
        [] \<Rightarrow> s
      | path # tasks \<Rightarrow>
          (case cleanup_after_download (Some (sys_backend s)) job_id path now of
             Inl exc \<Rightarrow> s\<lparr>sys_tasks := tasks\<rparr>
           | Inr b \<Rightarrow> s\<lparr>sys_backend := b, sys_tasks := tasks\<rparr>))"

definition submit :: "JobBackend \<Rightarrow> string \<Rightarrow> jval \<Rightarrow> real \<Rightarrow> run_env \<Rightarrow> system" where
  "submit b job_id payload now e =
     (case enqueue b job_id payload now of
        (b', j) \<Rightarrow> \<lparr>sys_backend = b', sys_pending = worker_updates b' job_id e, sys_tasks = []\<rparr>)"

definition run :: "string \<Rightarrow> system \<Rightarrow> event list \<Rightarrow> system" where
  "run job_id s schedule = foldl (step job_id) s schedule"

subsection \<open>What a client observes\<close>

datatype status = Queued | Fetching | Downloading | Converting | Done | Error | Deleted

definition parse_status :: "jval \<Rightarrow> status option" where
  "parse_status v =
     (if v = JStr ''queued'' then Some Queued
      else if v = JStr ''fetching'' then Some Fetching
      else if v = JStr ''downloading'' then Some Downloading
      else if v = JStr ''converting'' then Some Converting
      else if v = JStr ''done'' then Some Done
      else if v = JStr ''error'' then Some Error
      else if v = JStr ''deleted'' then Some Deleted
      else None)"

text \<open>The fields \<open>status\<close>, \<open>result\<close> and \<open>progress\<close> of the stored record, read with
  \<^verbatim>\<open>job.get\<close>.\<close>

record view =
  v_status :: "status option"
  v_result :: jval
  v_progress :: jval

definition field_or_none :: "JobBackend \<Rightarrow> string \<Rightarrow> string \<Rightarrow> jval" where
  "field_or_none b job_id k = (case stored_field b job_id k of None \<Rightarrow> JNone | Some v \<Rightarrow> v)"

definition view_of :: "JobBackend \<Rightarrow> string \<Rightarrow> view" where
  "view_of b job_id =
     \<lparr>v_status = parse_status (field_or_none b job_id ''status''),
      v_result = field_or_none b job_id ''result'',
      v_progress = field_or_none b job_id ''progress''\<rparr>"

definition observe :: "string \<Rightarrow> system \<Rightarrow> view" where
  "observe job_id s = view_of (sys_backend s) job_id"

definition terminal :: "status \<Rightarrow> bool" where
  "terminal a = (a = Done \<or> a = Error \<or> a = Deleted)"

text \<open>
  \<open>path_step\<close>: the changes of status along
  \<open>queued \<rightarrow> fetching \<rightarrow> downloading \<rightarrow> converting \<rightarrow> done\<close>, to \<open>error\<close> from a state
  that is not terminal, and to \<open>deleted\<close> from \<open>done\<close> or \<open>error\<close>. \<open>source_step\<close>: the
  changes of a job whose requested format is \<open>source\<close>, which the pipeline does not
  convert: along \<open>queued \<rightarrow> fetching \<rightarrow> downloading \<rightarrow> done\<close>, to \<open>error\<close> from one of
  the first three, and to \<open>deleted\<close> from \<open>done\<close> or \<open>error\<close>; no change leads to or
  from \<open>converting\<close>. \<open>lifecycle_step\<close> chooses between the two by the format.
\<close>

definition path_step :: "status \<Rightarrow> status \<Rightarrow> bool" where
  "path_step a b =
     ((a = Queued \<and> b = Fetching) \<or> (a = Fetching \<and> b = Downloading)
      \<or> (a = Downloading \<and> b = Converting) \<or> (a = Converting \<and> b = Done)
      \<or> (\<not> terminal a \<and> b = Error)
      \<or> ((a = Done \<or> a = Error) \<and> b = Deleted))"

definition source_step :: "status \<Rightarrow> status \<Rightarrow> bool" where
  "source_step a b =
     ((a = Queued \<and> b = Fetching) \<or> (a = Fetching \<and> b = Downloading)
      \<or> (a = Downloading \<and> b = Done)
      \<or> ((a = Queued \<or> a = Fetching \<or> a = Downloading) \<and> b = Error)
      \<or> ((a = Done \<or> a = Error) \<and> b = Deleted))"

definition lifecycle_step :: "bool \<Rightarrow> status \<Rightarrow> status \<Rightarrow> bool" where
  "lifecycle_step src a b = (if src then source_step a b else path_step a b)"

definition status_change :: "(status \<Rightarrow> status \<Rightarrow> bool) \<Rightarrow> view \<Rightarrow> view \<Rightarrow> bool" where
  "status_change allowed v v' =
     (case (v_status v, v_status v') of
        (Some a, Some b) \<Rightarrow> a = b \<or> allowed a b
      | _ \<Rightarrow> False)"

definition result_iff_done :: "view \<Rightarrow> bool" where
  "result_iff_done v = ((v_result v \<noteq> JNone) = (v_status v = Some Done))"

definition progress_in_range :: "view \<Rightarrow> bool" where
  "progress_in_range v = (case v_progress v of JNum x \<Rightarrow> 0 \<le> x \<and> x \<le> 100 | _ \<Rightarrow> False)"

definition progress_le :: "view \<Rightarrow> view \<Rightarrow> bool" where
  "progress_le v v' =
     (case (v_progress v, v_progress v') of (JNum x, JNum y) \<Rightarrow> x \<le> y | _ \<Rightarrow> False)"

text \<open>The format the pipeline works with, read from the payload as \<open>process_job_async\<close>
  reads it.\<close>

definition wants_source :: "jval \<Rightarrow> bool" where
  "wants_source payload =
     (case payload of
        JDict p \<Rightarrow>
          (case py_or (dget p ''want'') (py_or (dget p ''format'') (JStr ''mp4'')) of
             JStr w \<Rightarrow> lower w = ''source''
           | _ \<Rightarrow> False)
      | _ \<Rightarrow> False)"

subsection \<open>The updates still to come\<close>

text \<open>
  The effect of an update on the observed fields, and the property of a list of pending
  updates that the invariant of the system carries: every update changes the status
  along an allowed edge, leaves the result null unless it sets the status to \<open>done\<close>,
  writes a progress in range (and, for \<open>nondecr\<close>, not below the current one), and a
  terminal status is written by the last update only.
\<close>

definition apply_view :: "jrecord \<Rightarrow> view \<Rightarrow> view" where
  "apply_view u v =
     \<lparr>v_status = (case u ''status'' of None \<Rightarrow> v_status v | Some x \<Rightarrow> parse_status x),
      v_result = (case u ''result'' of None \<Rightarrow> v_result v | Some x \<Rightarrow> x),
      v_progress = (case u ''progress'' of None \<Rightarrow> v_progress v | Some x \<Rightarrow> x)\<rparr>"

definition view_ok :: "view \<Rightarrow> bool" where
  "view_ok v = (v_status v \<noteq> None \<and> result_iff_done v \<and> progress_in_range v)"

fun trace_ok :: "bool \<Rightarrow> bool \<Rightarrow> view \<Rightarrow> jrecord list \<Rightarrow> bool" where
  "trace_ok src nondecr v [] = True"
| "trace_ok src nondecr v (u # us) =
     (''job_id'' \<notin> dom u
      \<and> status_change (lifecycle_step src) v (apply_view u v)
      \<and> view_ok (apply_view u v)
      \<and> (nondecr \<longrightarrow> progress_le v (apply_view u v))
      \<and> ((case v_status (apply_view u v) of Some a \<Rightarrow> terminal a | None \<Rightarrow> True)
           \<longrightarrow> us = [])
      \<and> trace_ok src nondecr (apply_view u v) us)"

text \<open>What the worker issues: the updates of the pipeline, and for \<open>start_worker\<close> the
  error written for an exception that left it.\<close>

definition issued :: "bool \<Rightarrow> jrecord list \<times> error option \<Rightarrow> jrecord list" where
  "issued catch r =
     (case r of
        (updates, None) \<Rightarrow> updates
      | (updates, Some exc) \<Rightarrow> if catch then updates @ [error_update (str_error exc)] else updates)"

definition invariant :: "bool \<Rightarrow> bool \<Rightarrow> string \<Rightarrow> system \<Rightarrow> bool" where
  "invariant src nondecr job_id s =
     (view_ok (observe job_id s)
      \<and> trace_ok src nondecr (observe job_id s) (sys_pending s)
      \<and> (sys_pending s \<noteq> []
           \<longrightarrow> (case v_status (observe job_id s) of Some a \<Rightarrow> \<not> terminal a | None \<Rightarrow> False)
               \<and> sys_tasks s = [])
      \<and> (sys_tasks s \<noteq> []
           \<longrightarrow> v_status (observe job_id s) = Some Done
               \<or> v_status (observe job_id s) = Some Deleted))"

subsection \<open>Example runs\<close>

text \<open>
  A job submitted to an empty in-memory backend for the requested format \<open>fmt\<close>, in an
  environment where the probe, the download and the conversion succeed and \<^verbatim>\<open>yt-dlp\<close>
  fires the progress callbacks \<open>hooks\<close>.
\<close>

definition example_env :: "hook_data list \<Rightarrow> run_env" where
  "example_env hooks =
     \<lparr>max_file_size_mb = 500,
      probe_outcome = Inr \<lparr>title = JStr ''clip'', duration = JNum 10, thumbnail = JNone,
                           estimated_size_mb = Some 2\<rparr>,
      hook_calls = hooks,
      download_outcome = Inr ''temp/j1/clip.mp4'',
      size_outcome = Inr 2,
      convert_outcome = Inr ''temp/j1/clip.mp3'',
      path_name = (\<lambda>p. ''clip''),
      path_suffix = (\<lambda>p. ''.mp4'')\<rparr>"

definition example_payload :: "string \<Rightarrow> jval" where
  "example_payload fmt =
     JDict [(''url'', JStr ''https://youtu.be/abc''), (''quality'', JStr ''720p''),
            (''format'', JStr fmt)]"

definition example_system :: "string \<Rightarrow> hook_data list \<Rightarrow> system" where
  "example_system fmt hooks =
     submit (Memory \<lparr>jobs = Map.empty, queue = []\<rparr>) ''j1'' (example_payload fmt) 0
       (example_env hooks)"

text \<open>
  Two sequences of progress callbacks. In \<open>restarting_hooks\<close> the first stream of the
  download is complete (1000 of 1000 bytes) and the second stream has started (100 of
  2000 bytes), as when \<^verbatim>\<open>yt-dlp\<close> downloads video and audio one after the other or
  \<open>download_video\<close> retries with the format \<^verbatim>\<open>best\<close>. In \<open>rising_hooks\<close> two callbacks
  of one stream report 3500000 and then 4700000 of 7000000 bytes.
\<close>

definition restarting_hooks :: "hook_data list" where
  "restarting_hooks =
     [\<lparr>total_bytes = Some 1000, total_bytes_estimate = None, downloaded_bytes = Some 1000\<rparr>,
      \<lparr>total_bytes = Some 2000, total_bytes_estimate = None, downloaded_bytes = Some 100\<rparr>]"

definition rising_hooks :: "hook_data list" where
  "rising_hooks =
     [\<lparr>total_bytes = Some 7000000, total_bytes_estimate = None,
       downloaded_bytes = Some 3500000\<rparr>,
      \<lparr>total_bytes = Some 7000000, total_bytes_estimate = None,
       downloaded_bytes = Some 4700000\<rparr>]"
section \<open>Object identity: what a read of the store returns\<close>

text \<open>
  In the sections above a record is a value. Whether a change made to the dict that
  \<open>get\<close> returned reaches the stored record depends on which objects the two share, so
  here the dicts are objects in a heap: a value is a constant or a reference to a dict
  object, and \<^verbatim>\<open>dict(x)\<close> allocates a new object with the entries of \<open>x\<close>, the references
  among them copied as references. The functions of \<^verbatim>\<open>jobs_memory.py\<close>,
  \<^verbatim>\<open>jobs_rq.py\<close> and \<^verbatim>\<open>jobs.py\<close> are given again on this heap, with the suffix \<open>_obj\<close>.
\<close>

type_synonym addr = nat

datatype pval = PNone | PBool bool | PStr string | PNum real | PRef addr

type_synonym pdict = "(string \<times> pval) list"

record heap =
  objects :: "addr \<rightharpoonup> pdict"
  next_addr :: addr

definition new_dict :: "heap \<Rightarrow> pdict \<Rightarrow> addr \<times> heap" where
  "new_dict h d =
     (next_addr h, h\<lparr>objects := (objects h)(next_addr h \<mapsto> d), next_addr := Suc (next_addr h)\<rparr>)"

text \<open>\<^verbatim>\<open>dict(x)\<close> for the dict object at \<open>a\<close>.\<close>

definition dict_copy :: "heap \<Rightarrow> addr \<Rightarrow> addr \<times> heap" where
  "dict_copy h a = new_dict h (case objects h a of None \<Rightarrow> [] | Some d \<Rightarrow> d)"

text \<open>\<^verbatim>\<open>x[k] = v\<close>, \<^verbatim>\<open>del x[k]\<close> and \<^verbatim>\<open>x.get(k)\<close> for the dict object at \<open>a\<close>.\<close>

fun dict_setitem :: "pdict \<Rightarrow> string \<Rightarrow> pval \<Rightarrow> pdict" where
  "dict_setitem [] k v = [(k, v)]"
| "dict_setitem ((k', v') # d) k v =
     (if k' = k then (k, v) # d else (k', v') # dict_setitem d k v)"

definition set_item :: "heap \<Rightarrow> addr \<Rightarrow> string \<Rightarrow> pval \<Rightarrow> heap" where
  "set_item h a k v =
     (case objects h a of
        None \<Rightarrow> h
      | Some d \<Rightarrow> h\<lparr>objects := (objects h)(a \<mapsto> dict_setitem d k v)\<rparr>)"

definition del_item :: "heap \<Rightarrow> addr \<Rightarrow> string \<Rightarrow> heap" where
  "del_item h a k =
     (case objects h a of
        None \<Rightarrow> h
      | Some d \<Rightarrow> h\<lparr>objects := (objects h)(a \<mapsto> filter (\<lambda>kv. fst kv \<noteq> k) d)\<rparr>)"

definition get_item :: "heap \<Rightarrow> addr \<Rightarrow> string \<Rightarrow> pval option" where
  "get_item h a k = (case objects h a of None \<Rightarrow> None | Some d \<Rightarrow> map_of d k)"

text \<open>
  The JSON value that a heap value stands for, read through the references down to
  depth \<open>n\<close> (below it a reference reads as null).
\<close>

fun snapshot :: "nat \<Rightarrow> heap \<Rightarrow> pval \<Rightarrow> jval" where
  "snapshot n h PNone = JNone"
| "snapshot n h (PBool b) = JBool b"
| "snapshot n h (PStr s) = JStr s"
| "snapshot n h (PNum x) = JNum x"
| "snapshot 0 h (PRef a) = JNone"
| "snapshot (Suc n) h (PRef a) =
     (case objects h a of
        None \<Rightarrow> JNone
      | Some d \<Rightarrow> JDict (map (\<lambda>kv. (fst kv, snapshot n h (snd kv))) d))"

text \<open>A heap is well formed when its objects and the references in them lie below
  \<open>next_addr\<close>.\<close>

definition wf_heap :: "heap \<Rightarrow> bool" where
  "wf_heap h =
     (\<forall>a d. objects h a = Some d \<longrightarrow>
        a < next_addr h \<and> (\<forall>k r. (k, PRef r) \<in> set d \<longrightarrow> r < next_addr h))"

subsection \<open>\<^verbatim>\<open>jobs_memory.py\<close> and \<^verbatim>\<open>jobs.py\<close> on objects\<close>

text \<open>
  \<^verbatim>\<open>self.jobs\<close> maps a job id to the stored record object. \<open>enqueue\<close> stores a new dict
  whose entry \<^verbatim>\<open>"payload"\<close> is the dict it was given, \<open>get\<close> returns
  \<^verbatim>\<open>dict(job) if job else None\<close>, \<open>set\<close> stores \<^verbatim>\<open>dict(data)\<close>, and \<open>job_status\<close> returns
  \<^verbatim>\<open>dict(job)\<close> of what the \<open>get\<close> of the configured backend returned, or \<^verbatim>\<open>None\<close>.
\<close>

type_synonym jobs_obj = "string \<rightharpoonup> addr"

definition initial_record_obj :: "string \<Rightarrow> addr \<Rightarrow> real \<Rightarrow> pdict" where
  "initial_record_obj job_id payload now =
     [(''job_id'', PStr job_id),
      (''status'', PStr ''queued''),
      (''progress'', PNum 0),
      (''message'', PStr ''V ocheredi''),
      (''result'', PNone),
      (''error'', PNone),
      (''reason'', PNone),
      (''file_path'', PNone),
      (''filename'', PNone),
      (''mimetype'', PNone),
      (''meta'', PNone),
      (''payload'', PRef payload),
      (''created_at'', PNum now),
      (''updated_at'', PNum now)]"

definition MemoryBackend_enqueue_obj ::
  "heap \<Rightarrow> jobs_obj \<Rightarrow> string \<Rightarrow> addr \<Rightarrow> real \<Rightarrow> jobs_obj \<times> heap" where
  "MemoryBackend_enqueue_obj h js job_id payload now =
     (case new_dict h (initial_record_obj job_id payload now) of
        (a, h') \<Rightarrow> (js(job_id \<mapsto> a), h'))"

definition MemoryBackend_get_obj :: "heap \<Rightarrow> jobs_obj \<Rightarrow> string \<Rightarrow> addr option \<times> heap" where
  "MemoryBackend_get_obj h js job_id =
     (case js job_id of
        None \<Rightarrow> (None, h)
      | Some job \<Rightarrow>
          if (case objects h job of None \<Rightarrow> True | Some d \<Rightarrow> d = [])
          then (None, h)
          else (case dict_copy h job of (a, h') \<Rightarrow> (Some a, h')))"

definition MemoryBackend_set_obj :: "heap \<Rightarrow> jobs_obj \<Rightarrow> string \<Rightarrow> addr \<Rightarrow> jobs_obj \<times> heap" where
  "MemoryBackend_set_obj h js job_id data =
     (case dict_copy h data of (a, h') \<Rightarrow> (js(job_id \<mapsto> a), h'))"

text \<open>\<open>job_status\<close>, applied to what \<^verbatim>\<open>_backend.get(job_id)\<close> returned.\<close>

definition job_status_obj :: "addr option \<times> heap \<Rightarrow> addr option \<times> heap" where
  "job_status_obj got =
     (case got of
        (None, h') \<Rightarrow> (None, h')
      | (Some job, h') \<Rightarrow> (case dict_copy h' job of (a, h'') \<Rightarrow> (Some a, h'')))"

text \<open>The stored record of a job, as a JSON value read to depth \<open>n\<close>.\<close>

definition stored_record :: "nat \<Rightarrow> heap \<Rightarrow> jobs_obj \<Rightarrow> string \<Rightarrow> jval option" where
  "stored_record n h js job_id = map_option (\<lambda>a. snapshot n h (PRef a)) (js job_id)"

subsection \<open>\<^verbatim>\<open>jobs_rq.py\<close> on objects\<close>

text \<open>
  The RQ backend keeps, under the key of a job, the text \<^verbatim>\<open>json.dumps(data)\<close> of a record;
  \<open>redis_text\<close> maps the key to the items of the JSON object that the text denotes. \<open>get\<close>
  returns \<^verbatim>\<open>json.loads(raw)\<close>: the value built from new objects.
\<close>

fun loads :: "jval \<Rightarrow> heap \<Rightarrow> pval \<times> heap"
  and loads_items :: "(string \<times> jval) list \<Rightarrow> heap \<Rightarrow> pdict \<times> heap" where
  "loads JNone h = (PNone, h)"
| "loads (JBool b) h = (PBool b, h)"
| "loads (JStr s) h = (PStr s, h)"
| "loads (JNum x) h = (PNum x, h)"
| "loads (JDict kvs) h =
     (case loads_items kvs h of
        (d, h') \<Rightarrow> (case new_dict h' d of (a, h'') \<Rightarrow> (PRef a, h'')))"
| "loads_items [] h = ([], h)"
| "loads_items ((k, v) # kvs) h =
     (case loads v h of
        (pv, h') \<Rightarrow> (case loads_items kvs h' of (d, h'') \<Rightarrow> ((k, pv) # d, h'')))"

definition RQBackend_get_obj ::
  "heap \<Rightarrow> (string \<rightharpoonup> (string \<times> jval) list) \<Rightarrow> string \<Rightarrow> addr option \<times> heap" where
  "RQBackend_get_obj h redis_text job_id =
     (case redis_text (key job_id) of
        None \<Rightarrow> (None, h)
      | Some kvs \<Rightarrow>
          (case loads_items kvs h of
             (d, h') \<Rightarrow> (case new_dict h' d of (a, h'') \<Rightarrow> (Some a, h''))))"

text \<open>The nesting depth of a JSON value.\<close>

fun depth :: "jval \<Rightarrow> nat"
  and depth_items :: "(string \<times> jval) list \<Rightarrow> nat" where
  "depth JNone = 0"
| "depth (JBool b) = 0"
| "depth (JStr s) = 0"
| "depth (JNum x) = 0"
| "depth (JDict kvs) = Suc (depth_items kvs)"
| "depth_items [] = 0"
| "depth_items ((k, v) # kvs) = max (depth v) (depth_items kvs)"

subsection \<open>An example\<close>

text \<open>
  The payload dict of a request at address 0, and the in-memory store after the job
  \<open>j1\<close> was enqueued with it at time 100: the record is the object at address 1, and
  its entry \<^verbatim>\<open>"payload"\<close> refers to object 0.
\<close>

definition example_request :: heap where
  "example_request =
     \<lparr>objects = [0 \<mapsto> [(''url'', PStr ''https://youtu.be/abc''), (''format'', PStr ''mp4'')]],
      next_addr = 1\<rparr>"

definition example_jobs :: jobs_obj where
  "example_jobs = fst (MemoryBackend_enqueue_obj example_request Map.empty ''j1'' 0 100)"

definition example_heap :: heap where
  "example_heap = snd (MemoryBackend_enqueue_obj example_request Map.empty ''j1'' 0 100)"

text \<open>A read of job \<open>j1\<close>, and the heap after \<^verbatim>\<open>job["payload"]["url"] = "changed"\<close> on the
  dict it returned.\<close>

definition example_read :: "addr option \<times> heap" where
  "example_read = MemoryBackend_get_obj example_heap example_jobs ''j1''"

definition example_nested_write :: heap where
  "example_nested_write = set_item (snd example_read) 0 ''url'' (PStr ''changed'')"

text \<open>The same record as the RQ backend keeps it.\<close>

definition example_raw :: "(string \<times> jval) list" where
  "example_raw =
     [(''job_id'', JStr ''j1''), (''status'', JStr ''queued''), (''progress'', JNum 0),
      (''payload'', JDict [(''url'', JStr ''https://youtu.be/abc''),
                           (''format'', JStr ''mp4'')])]"

definition example_redis :: "string \<rightharpoonup> (string \<times> jval) list" where
  "example_redis = [key ''j1'' \<mapsto> example_raw]"

section \<open>Updates merge\<close>

lemma get_set_job:
  "data \<noteq> Map.empty \<Longrightarrow> get (set_job b job_id data) job_id = Some data"
  by (cases b) (simp_all add: MemoryBackend_get_def MemoryBackend_set_def RQBackend_get_def
      RQBackend_set_def)

text \<open>The dict \<open>current\<close> that \<open>job_update\<close> builds, as one expression.\<close>

lemma job_update_eq:
  assumes "''job_id'' \<notin> dom flds"
  shows "job_update (Some b) job_id flds now =
           Inr (set_job b job_id
                  (((case get b job_id of None \<Rightarrow> [''job_id'' \<mapsto> JStr job_id]
                     | Some c \<Rightarrow> if ''job_id'' \<in> dom c then c
                                else c(''job_id'' \<mapsto> JStr job_id)) ++ flds)
                    (''updated_at'' \<mapsto> JNum now)),
                ((case get b job_id of None \<Rightarrow> [''job_id'' \<mapsto> JStr job_id]
                   | Some c \<Rightarrow> if ''job_id'' \<in> dom c then c
                              else c(''job_id'' \<mapsto> JStr job_id)) ++ flds)
                  (''updated_at'' \<mapsto> JNum now))"
  using assms by (simp add: job_update_def Let_def split: option.splits)

lemma stored_field_set_job:
  "data \<noteq> Map.empty \<Longrightarrow> stored_field (set_job b job_id data) job_id k = data k"
  by (simp add: stored_field_def get_set_job)

lemma job_update_stamp:
  assumes "''job_id'' \<notin> dom flds"
  shows "case job_update (Some b) job_id flds now of
           Inl e \<Rightarrow> False
         | Inr (b', cur) \<Rightarrow> stored_field b' job_id ''updated_at'' = Some (JNum now)"
  by (simp add: job_update_eq [OF assms] stored_field_set_job)

lemma job_update_new:
  assumes "''job_id'' \<notin> dom flds" and "k \<noteq> ''updated_at''" and "k \<in> dom flds"
  shows "case job_update (Some b) job_id flds now of
           Inl e \<Rightarrow> False
         | Inr (b', cur) \<Rightarrow> stored_field b' job_id k = flds k"
  using assms(2,3)
  by (simp add: job_update_eq [OF assms(1)] stored_field_set_job map_add_dom_app_simps)

lemma job_update_old:
  assumes "''job_id'' \<notin> dom flds" and "k \<noteq> ''updated_at''" and "k \<notin> dom flds"
    and "stored_field b job_id k = Some v"
  shows "case job_update (Some b) job_id flds now of
           Inl e \<Rightarrow> False
         | Inr (b', cur) \<Rightarrow> stored_field b' job_id k = Some v"
proof (cases "get b job_id")
  case None
  with assms(4) show ?thesis by (simp add: stored_field_def)
next
  case (Some c)
  with assms(4) have "c k = Some v" by (simp add: stored_field_def)
  with assms(2,3) Some show ?thesis
    by (auto simp: job_update_eq [OF assms(1)] stored_field_set_job map_add_dom_app_simps)
qed

lemma run_job_update_get:
  "RQBackend_get (run_job_update r job_id flds) job_id =
     Some ((case RQBackend_get r job_id of None \<Rightarrow> Map.empty | Some c \<Rightarrow> c) ++ flds)"
  by (simp add: run_job_update_def RQBackend_get_def RQBackend_set_def Let_def)

lemma run_job_update_keeps:
  "k \<notin> dom flds \<Longrightarrow> stored_field (RQ r) job_id k = Some v
     \<Longrightarrow> stored_field (RQ (run_job_update r job_id flds)) job_id k = Some v"
  by (auto simp: stored_field_def run_job_update_get map_add_dom_app_simps
      split: option.splits)

lemma run_job_update_sets:
  "k \<in> dom flds \<Longrightarrow> stored_field (RQ (run_job_update r job_id flds)) job_id k = flds k"
  by (simp add: stored_field_def run_job_update_get map_add_dom_app_simps)

text \<open>
  C1. An update never erases a field written before. For \<open>job_update\<close> (either backend)
  every field that the record held and that the update does not name keeps its value, and
  the named fields take the new values; only \<open>updated_at\<close> is restamped. The same holds
  for the callback of \<open>run_job\<close>. In particular after an update of \<open>meta\<close> to \<open>X\<close> and
  then an update of \<open>progress\<close> to 50 the record read back has \<open>meta = X\<close> and
  \<open>progress = 50\<close>, through \<open>job_update\<close> and \<open>job_status\<close> as through the callback of
  \<open>run_job\<close>.
\<close>

theorem merge_update_keeps_fields:
  "(''job_id'' \<notin> dom flds \<longrightarrow>
      (case job_update (Some b) job_id flds now of
         Inl e \<Rightarrow> False
       | Inr (b', cur) \<Rightarrow>
           (\<forall>k v. k \<noteq> ''updated_at'' \<and> k \<notin> dom flds \<and> stored_field b job_id k = Some v
               \<longrightarrow> stored_field b' job_id k = Some v)
         \<and> (\<forall>k. k \<noteq> ''updated_at'' \<and> k \<in> dom flds \<longrightarrow> stored_field b' job_id k = flds k)))
   \<and> (\<forall>k v. k \<notin> dom flds \<and> stored_field (RQ r) job_id k = Some v
         \<longrightarrow> stored_field (RQ (run_job_update r job_id flds)) job_id k = Some v)
   \<and> (\<forall>k. k \<in> dom flds
         \<longrightarrow> stored_field (RQ (run_job_update r job_id flds)) job_id k = flds k)
   \<and> (case job_update (Some b) job_id [''meta'' \<mapsto> X] t1 of
         Inl e \<Rightarrow> False
       | Inr (b1, c1) \<Rightarrow>
           (case job_update (Some b1) job_id [''progress'' \<mapsto> JNum 50] t2 of
              Inl e \<Rightarrow> False
            | Inr (b2, c2) \<Rightarrow>
                (case job_status (Some b2) job_id of
                   Inr (Some rec) \<Rightarrow>
                     rec ''meta'' = Some X \<and> rec ''progress'' = Some (JNum 50)
                 | _ \<Rightarrow> False)))
   \<and> (case RQBackend_get
         (run_job_update (run_job_update r job_id [''meta'' \<mapsto> X]) job_id
            [''progress'' \<mapsto> JNum 50]) job_id of
         Some rec \<Rightarrow> rec ''meta'' = Some X \<and> rec ''progress'' = Some (JNum 50)
       | None \<Rightarrow> False)"
proof (intro conjI impI)
  assume nj: "''job_id'' \<notin> dom flds"
  obtain b' cur where u: "job_update (Some b) job_id flds now = Inr (b', cur)"
    using job_update_eq [OF nj] by blast
  have old: "stored_field b' job_id k = Some v"
    if "k \<noteq> ''updated_at''" "k \<notin> dom flds" "stored_field b job_id k = Some v" for k v
    using job_update_old [OF nj that, where now=now] u by simp
  have new: "stored_field b' job_id k = flds k"
    if "k \<noteq> ''updated_at''" "k \<in> dom flds" for k
    using job_update_new [OF nj that, where b=b and job_id=job_id and now=now] u by simp
  show "case job_update (Some b) job_id flds now of
         Inl e \<Rightarrow> False
       | Inr (b', cur) \<Rightarrow>
           (\<forall>k v. k \<noteq> ''updated_at'' \<and> k \<notin> dom flds \<and> stored_field b job_id k = Some v
               \<longrightarrow> stored_field b' job_id k = Some v)
         \<and> (\<forall>k. k \<noteq> ''updated_at'' \<and> k \<in> dom flds \<longrightarrow> stored_field b' job_id k = flds k)"
    using old new by (simp add: u)
next
  show "\<forall>k v. k \<notin> dom flds \<and> stored_field (RQ r) job_id k = Some v
         \<longrightarrow> stored_field (RQ (run_job_update r job_id flds)) job_id k = Some v"
    using run_job_update_keeps by blast
next
  show "\<forall>k. k \<in> dom flds
         \<longrightarrow> stored_field (RQ (run_job_update r job_id flds)) job_id k = flds k"
    using run_job_update_sets by blast
next
  have d1: "''job_id'' \<notin> dom [''meta'' \<mapsto> X]" by simp
  have d2: "''job_id'' \<notin> dom [''progress'' \<mapsto> JNum 50]" by simp
  obtain b1 c1 where u1: "job_update (Some b) job_id [''meta'' \<mapsto> X] t1 = Inr (b1, c1)"
    using job_update_eq [OF d1] by blast
  obtain b2 c2 where
    u2: "job_update (Some b1) job_id [''progress'' \<mapsto> JNum 50] t2 = Inr (b2, c2)"
    using job_update_eq [OF d2] by blast
  have m1: "stored_field b1 job_id ''meta'' = Some X"
    using job_update_new [OF d1, where k="''meta''" and b=b and job_id=job_id and now=t1] u1
    by simp
  have m2: "stored_field b2 job_id ''meta'' = Some X"
    using job_update_old [OF d2 _ _ m1, where now=t2] u2 by simp
  have p2: "stored_field b2 job_id ''progress'' = Some (JNum 50)"
    using job_update_new [OF d2, where k="''progress''" and b=b1 and job_id=job_id and now=t2]
      u2 by simp
  from m2 p2 have "case get b2 job_id of
      Some rec \<Rightarrow> rec ''meta'' = Some X \<and> rec ''progress'' = Some (JNum 50) | None \<Rightarrow> False"
    by (simp add: stored_field_def split: option.splits)
  then show "case job_update (Some b) job_id [''meta'' \<mapsto> X] t1 of
         Inl e \<Rightarrow> False
       | Inr (b1, c1) \<Rightarrow>
           (case job_update (Some b1) job_id [''progress'' \<mapsto> JNum 50] t2 of
              Inl e \<Rightarrow> False
            | Inr (b2, c2) \<Rightarrow>
                (case job_status (Some b2) job_id of
                   Inr (Some rec) \<Rightarrow>
                     rec ''meta'' = Some X \<and> rec ''progress'' = Some (JNum 50)
                 | _ \<Rightarrow> False))"
    by (simp add: u1 u2 job_status_def split: option.splits)
next
  show "case RQBackend_get
         (run_job_update (run_job_update r job_id [''meta'' \<mapsto> X]) job_id
            [''progress'' \<mapsto> JNum 50]) job_id of
         Some rec \<Rightarrow> rec ''meta'' = Some X \<and> rec ''progress'' = Some (JNum 50)
       | None \<Rightarrow> False"
    by (simp add: run_job_update_get)
qed

theorem merge_update_keeps_fields_witness:
  "''job_id'' \<notin> dom [''progress'' \<mapsto> JNum 50]
   \<and> stored_field (Memory \<lparr>jobs = [''a1'' \<mapsto> [''meta'' \<mapsto> JStr ''x'']], queue = []\<rparr>)
        ''a1'' ''meta'' = Some (JStr ''x'')
   \<and> (case job_update
          (Some (Memory \<lparr>jobs = [''a1'' \<mapsto> [''meta'' \<mapsto> JStr ''x'']], queue = []\<rparr>))
          ''a1'' [''progress'' \<mapsto> JNum 50] 9 of
        Inl e \<Rightarrow> False
      | Inr (b', cur) \<Rightarrow>
          stored_field b' ''a1'' ''meta'' = Some (JStr ''x'')
          \<and> stored_field b' ''a1'' ''progress'' = Some (JNum 50))
   \<and> stored_field (RQ \<lparr>redis = [key ''a1'' \<mapsto> [''meta'' \<mapsto> JStr ''x'']], rq_jobs = []\<rparr>)
        ''a1'' ''meta'' = Some (JStr ''x'')
   \<and> stored_field (RQ (run_job_update
          \<lparr>redis = [key ''a1'' \<mapsto> [''meta'' \<mapsto> JStr ''x'']], rq_jobs = []\<rparr>
          ''a1'' [''progress'' \<mapsto> JNum 50])) ''a1'' ''meta'' = Some (JStr ''x'')"
proof -
  let ?f = "[''progress'' \<mapsto> JNum 50]"
  let ?B = "Memory \<lparr>jobs = [''a1'' \<mapsto> [''meta'' \<mapsto> JStr ''x'']], queue = []\<rparr>"
  let ?R = "\<lparr>redis = [key ''a1'' \<mapsto> [''meta'' \<mapsto> JStr ''x'']], rq_jobs = []\<rparr>"
  have h1: "''job_id'' \<notin> dom ?f" by simp
  have h2: "stored_field ?B ''a1'' ''meta'' = Some (JStr ''x'')"
    by (simp add: stored_field_def MemoryBackend_get_def)
  have h3: "stored_field (RQ ?R) ''a1'' ''meta'' = Some (JStr ''x'')"
    by (simp add: stored_field_def RQBackend_get_def)
  have h4: "''meta'' \<noteq> ''updated_at'' \<and> ''meta'' \<notin> dom ?f" by simp
  have h5: "''progress'' \<noteq> ''updated_at'' \<and> ''progress'' \<in> dom ?f" by simp
  note t = merge_update_keeps_fields [where flds="?f" and b="?B" and job_id="''a1''"
      and now=9 and r="?R"]
  have a: "case job_update (Some ?B) ''a1'' ?f 9 of
         Inl e \<Rightarrow> False
       | Inr (b', cur) \<Rightarrow>
           (\<forall>k v. k \<noteq> ''updated_at'' \<and> k \<notin> dom ?f \<and> stored_field ?B ''a1'' k = Some v
               \<longrightarrow> stored_field b' ''a1'' k = Some v)
         \<and> (\<forall>k. k \<noteq> ''updated_at'' \<and> k \<in> dom ?f \<longrightarrow> stored_field b' ''a1'' k = ?f k)"
    by (rule t [THEN conjunct1, THEN mp, OF h1])
  have c3: "case job_update (Some ?B) ''a1'' ?f 9 of
        Inl e \<Rightarrow> False
      | Inr (b', cur) \<Rightarrow>
          stored_field b' ''a1'' ''meta'' = Some (JStr ''x'')
          \<and> stored_field b' ''a1'' ''progress'' = Some (JNum 50)"
  proof (cases "job_update (Some ?B) ''a1'' ?f 9")
    case (Inl e)
    with a show ?thesis by simp
  next
    case (Inr p)
    obtain b' cur where p: "p = (b', cur)" by (cases p)
    from a Inr p have
      o: "\<forall>k v. k \<noteq> ''updated_at'' \<and> k \<notin> dom ?f \<and> stored_field ?B ''a1'' k = Some v
               \<longrightarrow> stored_field b' ''a1'' k = Some v" and
      n: "\<forall>k. k \<noteq> ''updated_at'' \<and> k \<in> dom ?f \<longrightarrow> stored_field b' ''a1'' k = ?f k"
      by simp_all
    have "stored_field b' ''a1'' ''meta'' = Some (JStr ''x'')"
      using o [rule_format, of "''meta''" "JStr ''x''"] h4 h2 by simp
    moreover have "stored_field b' ''a1'' ''progress'' = ?f ''progress''"
      using n [rule_format, of "''progress''"] h5 by simp
    ultimately show ?thesis using Inr p by simp
  qed
  have "\<forall>k v. k \<notin> dom ?f \<and> stored_field (RQ ?R) ''a1'' k = Some v
         \<longrightarrow> stored_field (RQ (run_job_update ?R ''a1'' ?f)) ''a1'' k = Some v"
    by (rule t [THEN conjunct2, THEN conjunct1])
  from this [rule_format, of "''meta''" "JStr ''x''"] h4 h3
  have c5: "stored_field (RQ (run_job_update ?R ''a1'' ?f)) ''a1'' ''meta''
      = Some (JStr ''x'')"
    by simp
  show ?thesis
    by (rule conjI [OF h1 conjI [OF h2 conjI [OF c3 conjI [OF h3 c5]]]])
qed

section \<open>The time stamp of a write\<close>

text \<open>
  C7. Every write stamps \<open>updated_at\<close> with the time of the write. \<open>job_update\<close> does
  (lemma \<open>job_update_stamp\<close>); the callback of \<open>run_job\<close> does not: a record
  enqueued at time 100 and then updated by the RQ worker (at any later time, the callback
  reads no clock) still carries \<open>updated_at = 100\<close>.
\<close>

theorem run_job_update_keeps_old_stamp:
  "case RQBackend_enqueue \<lparr>redis = Map.empty, rq_jobs = []\<rparr> ''a1'' (JDict []) 100 of
     (r0, j) \<Rightarrow>
       stored_field (RQ r0) ''a1'' ''updated_at'' = Some (JNum 100)
       \<and> stored_field
           (RQ (run_job_update r0 ''a1''
                  [''status'' \<mapsto> JStr ''fetching'', ''progress'' \<mapsto> JNum 5]))
           ''a1'' ''updated_at'' = Some (JNum 100)
       \<and> stored_field
           (RQ (run_job_update r0 ''a1''
                  [''status'' \<mapsto> JStr ''fetching'', ''progress'' \<mapsto> JNum 5]))
           ''a1'' ''status'' = Some (JStr ''fetching'')"
  by (simp add: RQBackend_enqueue_def stored_field_def run_job_update_def RQBackend_get_def
      RQBackend_set_def initial_record_def Let_def)

section \<open>The limiter admits at most \<open>limit\<close> calls per window\<close>

lemma drop_expired_suffix:
  "\<exists>old. hits_i = old @ drop_expired now window hits_i
         \<and> (\<forall>t\<in>set old. now - t > real_of_int window)"
proof (induction hits_i)
  case Nil
  show ?case by simp
next
  case (Cons t q)
  show ?case
  proof (cases "now - t > real_of_int window")
    case True
    from Cons obtain old where "q = old @ drop_expired now window q"
      and "\<forall>u\<in>set old. now - u > real_of_int window" by blast
    with True have "t # q = (t # old) @ drop_expired now window (t # q)
        \<and> (\<forall>u\<in>set (t # old). now - u > real_of_int window)"
      by simp
    then show ?thesis by blast
  next
    case False
    then have "t # q = [] @ drop_expired now window (t # q)
        \<and> (\<forall>u\<in>set ([]::real list). now - u > real_of_int window)"
      by simp
    then show ?thesis by blast
  qed
qed

lemma drop_expired_length: "length (drop_expired now window q) \<le> length q"
  by (induction q) auto

lemma drop_expired_sorted_filter:
  "sorted q \<Longrightarrow> drop_expired now window q = filter (\<lambda>t. now - t \<le> real_of_int window) q"
proof (induction q)
  case Nil
  show ?case by simp
next
  case (Cons t q)
  show ?case
  proof (cases "now - t > real_of_int window")
    case True
    with Cons show ?thesis by simp
  next
    case False
    from Cons.prems have "\<forall>u\<in>set q. t \<le> u" by simp
    with False have "\<forall>u\<in>set q. now - u \<le> real_of_int window" by auto
    then have "filter (\<lambda>t. now - t \<le> real_of_int window) q = q" by simp
    with False show ?thesis by simp
  qed
qed

lemma drop_expired_keeps:
  "q = [] \<or> now - hd q \<le> real_of_int window \<Longrightarrow> drop_expired now window q = q"
  by (cases q) auto

lemma drop_expired_drops:
  "q \<noteq> [] \<Longrightarrow> now - hd q > real_of_int window
     \<Longrightarrow> length (drop_expired now window q) < length q"
  using drop_expired_length [of now window "tl q"] by (cases q) auto

lemma admissions_subset: "set (admissions hits limit window calls) \<subseteq> set calls"
proof (induction calls arbitrary: hits)
  case Nil
  show ?case by simp
next
  case (Cons c calls)
  obtain i now where c: "c = (i, now)" by (cases c)
  obtain ok hits' where a: "allow hits i limit window now = (ok, hits')"
    by (cases "allow hits i limit window now")
  from Cons [of hits'] show ?case by (auto simp: c a)
qed

lemma window_bound_gen:
  assumes "length (hits i) \<le> nat limit" and "sorted (map snd calls)"
  shows "length (filter (\<lambda>t. a \<le> t \<and> t \<le> a + real_of_int window) (hits i))
         + length (in_window i a window (admissions hits limit window calls)) \<le> nat limit"
  using assms
proof (induction calls arbitrary: hits)
  case Nil
  have "length (filter (\<lambda>t. a \<le> t \<and> t \<le> a + real_of_int window) (hits i))
          \<le> nat limit"
    by (rule le_trans [OF length_filter_le Nil(1)])
  then show ?case by (simp add: in_window_def)
next
  case (Cons c calls)
  let ?W = "\<lambda>t. a \<le> t \<and> t \<le> a + real_of_int window"
  obtain j now where c: "c = (j, now)" by (cases c)
  obtain ok hits' where al: "allow hits j limit window now = (ok, hits')"
    by (cases "allow hits j limit window now")
  from Cons.prems(2) have later: "\<forall>d\<in>set calls. now \<le> snd d" and
    srt: "sorted (map snd calls)"
    by (auto simp: c)
  have adm: "admissions hits limit window (c # calls) =
      (if ok then [(j, now)] else []) @ admissions hits' limit window calls"
    by (simp add: c al)
  show ?case
  proof (cases "j = i")
    case False
    with al have same: "hits' i = hits i"
      by (auto simp: allow_def Let_def split: if_splits)
    with Cons.prems(1) have "length (hits' i) \<le> nat limit" by simp
    from Cons.IH [of hits', OF this srt] same False show ?thesis
      by (simp add: adm in_window_def)
  next
    case True
    define q where "q = drop_expired now window (hits i)"
    obtain old where split: "hits i = old @ q"
      and old: "\<forall>t\<in>set old. now - t > real_of_int window"
      using drop_expired_suffix [of "hits i" now window] unfolding q_def by blast
    have ql: "length q \<le> length (hits i)"
      unfolding q_def by (rule drop_expired_length)
    have h': "hits' i = (if ok then q @ [now] else q)"
      and okdef: "ok = (int (length q) < limit)"
      using al True by (auto simp: allow_def Let_def q_def split: if_splits)
    have len': "length (hits' i) \<le> nat limit"
      using h' okdef ql Cons.prems(1) by (auto split: if_splits)
    note IH = Cons.IH [of hits', OF len' srt]
    show ?thesis
    proof (cases "\<exists>t\<in>set old. ?W t")
      case True
      then obtain d where d: "d \<in> set old" "a \<le> d" by blast
      with old have before: "a + real_of_int window < now" by fastforce
      have "in_window i a window (admissions hits' limit window calls) = []"
      proof -
        have "\<forall>e\<in>set (admissions hits' limit window calls). now \<le> snd e"
          using admissions_subset [of hits' limit window calls] later by blast
        with before show ?thesis
          by (auto simp: in_window_def filter_empty_conv)
      qed
      moreover have "in_window i a window (if ok then [(j, now)] else []) = []"
        using before by (simp add: in_window_def)
      ultimately have "in_window i a window (admissions hits limit window (c # calls)) = []"
        by (simp add: adm in_window_def)
      moreover have "length (filter ?W (hits i)) \<le> nat limit"
        by (rule le_trans [OF length_filter_le Cons.prems(1)])
      ultimately show ?thesis by simp
    next
      case False
      then have "filter ?W old = []" by (simp add: filter_empty_conv)
      with split have fq: "filter ?W (hits i) = filter ?W q" by simp
      show ?thesis
      proof (cases ok)
        case True
        with h' have "length (filter ?W (hits' i))
            = length (filter ?W q) + (if ?W now then 1 else 0)" by simp
        with IH fq True \<open>j = i\<close> show ?thesis
          by (auto simp: adm in_window_def split: if_splits)
      next
        case False
        with h' have "hits' i = q" by simp
        with IH fq False show ?thesis
          by (simp add: adm in_window_def)
      qed
    qed
  qed
qed

text \<open>
  C5. A call of \<open>allow\<close> is permitted exactly when fewer than \<open>limit\<close> events remain after
  the expired events have been dropped from the front of the identifier's list; the list
  then holds the remaining events, with the new one appended on success, and the lists of
  the other identifiers are untouched. On a list in time order the events dropped are
  exactly those older than the window. Consequently, over any sequence of calls in time
  order starting from the empty table, the admissions of an identifier inside any closed
  interval of \<open>window\<close> seconds number at most \<open>limit\<close>; a call is rejected when \<open>limit\<close>
  events are recorded and the oldest is still inside the window; and it is allowed again
  when the list holds \<open>limit\<close> events and the oldest has aged out.
\<close>

theorem allow_sliding_window:
  "(fst (allow hits i limit window now)
      \<longleftrightarrow> int (length (drop_expired now window (hits i))) < limit)
   \<and> snd (allow hits i limit window now) i =
       drop_expired now window (hits i)
         @ (if fst (allow hits i limit window now) then [now] else [])
   \<and> (\<forall>j. j \<noteq> i \<longrightarrow> snd (allow hits i limit window now) j = hits j)
   \<and> (sorted (hits i) \<longrightarrow>
        drop_expired now window (hits i)
          = filter (\<lambda>t. now - t \<le> real_of_int window) (hits i))
   \<and> (sorted (map snd calls) \<longrightarrow>
        length (in_window i a window (admissions reset limit window calls)) \<le> nat limit)
   \<and> (limit \<le> int (length (hits i))
        \<and> (hits i = [] \<or> now - hd (hits i) \<le> real_of_int window)
        \<longrightarrow> \<not> fst (allow hits i limit window now))
   \<and> (hits i \<noteq> [] \<and> int (length (hits i)) \<le> limit
        \<and> now - hd (hits i) > real_of_int window
        \<longrightarrow> fst (allow hits i limit window now))"
proof (intro conjI allI impI)
  show "fst (allow hits i limit window now)
      \<longleftrightarrow> int (length (drop_expired now window (hits i))) < limit"
    by (auto simp: allow_def Let_def)
next
  show "snd (allow hits i limit window now) i =
       drop_expired now window (hits i)
         @ (if fst (allow hits i limit window now) then [now] else [])"
    by (simp add: allow_def Let_def)
next
  fix j assume "j \<noteq> i"
  then show "snd (allow hits i limit window now) j = hits j"
    by (simp add: allow_def Let_def)
next
  assume "sorted (hits i)"
  then show "drop_expired now window (hits i)
          = filter (\<lambda>t. now - t \<le> real_of_int window) (hits i)"
    by (rule drop_expired_sorted_filter)
next
  assume s: "sorted (map snd calls)"
  have "length (reset i) \<le> nat limit" by (simp add: reset_def)
  from window_bound_gen [where hits=reset and i=i and a=a and window=window, OF this s]
  show "length (in_window i a window (admissions reset limit window calls)) \<le> nat limit"
    by simp
next
  assume h: "limit \<le> int (length (hits i))
        \<and> (hits i = [] \<or> now - hd (hits i) \<le> real_of_int window)"
  then have "drop_expired now window (hits i) = hits i"
    by (simp add: drop_expired_keeps)
  with h show "\<not> fst (allow hits i limit window now)"
    by (simp add: allow_def Let_def)
next
  assume h: "hits i \<noteq> [] \<and> int (length (hits i)) \<le> limit
        \<and> now - hd (hits i) > real_of_int window"
  then have "length (drop_expired now window (hits i)) < length (hits i)"
    by (simp add: drop_expired_drops)
  with h show "fst (allow hits i limit window now)"
    by (simp add: allow_def Let_def)
qed

theorem allow_sliding_window_witness:
  "sorted (map snd [(''ip'', 0), (''ip'', 1), (''ip'', 2), (''ip'', 601::real)])
   \<and> admissions reset 2 600 [(''ip'', 0), (''ip'', 1), (''ip'', 2), (''ip'', 601)]
       = [(''ip'', 0), (''ip'', 1), (''ip'', 601)]
   \<and> length (in_window ''ip'' 0 600
        (admissions reset 2 600 [(''ip'', 0), (''ip'', 1), (''ip'', 2), (''ip'', 601)]))
       \<le> nat 2
   \<and> sorted ((reset(''ip'' := [0, 1])) ''ip'')
   \<and> (reset(''ip'' := [0, 1])) ''ip'' \<noteq> []
   \<and> 2 \<le> int (length ((reset(''ip'' := [0, 1])) ''ip''))
   \<and> int (length ((reset(''ip'' := [0, 1])) ''ip'')) \<le> 2
   \<and> 2 - hd ((reset(''ip'' := [0, 1])) ''ip'') \<le> real_of_int 600
   \<and> \<not> fst (allow (reset(''ip'' := [0, 1])) ''ip'' 2 600 2)
   \<and> 601 - hd ((reset(''ip'' := [0, 1])) ''ip'') > real_of_int 600
   \<and> fst (allow (reset(''ip'' := [0, 1])) ''ip'' 2 600 601)"
proof -
  let ?calls = "[(''ip'', 0), (''ip'', 1), (''ip'', 2), (''ip'', 601::real)]"
  let ?h = "reset(''ip'' := [0, 1])"
  have s: "sorted (map snd ?calls)" by simp
  have e: "admissions reset 2 600 ?calls = [(''ip'', 0), (''ip'', 1), (''ip'', 601)]"
    by (simp add: allow_def reset_def Let_def)
  have b: "length (in_window ''ip'' 0 600 (admissions reset 2 600 ?calls)) \<le> nat 2"
    by (rule allow_sliding_window [where calls="?calls" and i="''ip''" and a=0
          and limit=2 and window=600, THEN conjunct2, THEN conjunct2, THEN conjunct2,
          THEN conjunct2, THEN conjunct1, THEN mp, OF s])
  have q: "sorted (?h ''ip'')" "?h ''ip'' \<noteq> []" "2 \<le> int (length (?h ''ip''))"
    "int (length (?h ''ip'')) \<le> 2" "2 - hd (?h ''ip'') \<le> real_of_int 600"
    "601 - hd (?h ''ip'') > real_of_int 600"
    by simp_all
  have r: "\<not> fst (allow ?h ''ip'' 2 600 2)"
    by (rule allow_sliding_window [where hits="?h" and i="''ip''" and now=2
          and limit=2 and window=600, THEN conjunct2, THEN conjunct2, THEN conjunct2,
          THEN conjunct2, THEN conjunct2, THEN conjunct1, THEN mp]) (simp add: q)
  have o: "fst (allow ?h ''ip'' 2 600 601)"
    by (rule allow_sliding_window [where hits="?h" and i="''ip''" and now=601
          and limit=2 and window=600, THEN conjunct2, THEN conjunct2, THEN conjunct2,
          THEN conjunct2, THEN conjunct2, THEN conjunct2, THEN mp]) (simp add: q)
  from s e b q r o show ?thesis by (intro conjI)
qed

section \<open>\<open>safe_filename\<close> returns a safe name\<close>

lemma ustr_literals:
  "ustr ''..'' = [46, 46]" "ustr ''__'' = [95, 95]" "ustr ''_'' = [95]"
  "ustr '' ._'' = [32, 46, 95]" "ustr ''file'' = [102, 105, 108, 101]"
  by (simp_all add: ustr_def)

lemma contains_iff: "contains sub s \<longleftrightarrow> (\<exists>ps ss. s = ps @ sub @ ss)"
proof (induction s)
  case Nil
  show ?case by auto
next
  case (Cons x xs)
  have pre: "take (length sub) (x # xs) = sub \<longleftrightarrow> (\<exists>ss. x # xs = sub @ ss)"
  proof
    assume "take (length sub) (x # xs) = sub"
    then have "x # xs = sub @ drop (length sub) (x # xs)"
      by (metis append_take_drop_id)
    then show "\<exists>ss. x # xs = sub @ ss" ..
  next
    assume "\<exists>ss. x # xs = sub @ ss"
    then obtain ss where "x # xs = sub @ ss" ..
    then show "take (length sub) (x # xs) = sub" by simp
  qed
  show ?case
  proof
    assume "contains sub (x # xs)"
    then consider "take (length sub) (x # xs) = sub" | "contains sub xs" by auto
    then show "\<exists>ps ss. x # xs = ps @ sub @ ss"
    proof cases
      case 1
      with pre obtain ss where "x # xs = [] @ sub @ ss" by auto
      then show ?thesis by blast
    next
      case 2
      with Cons obtain ps ss where "xs = ps @ sub @ ss" by blast
      then have "x # xs = (x # ps) @ sub @ ss" by simp
      then show ?thesis by blast
    qed
  next
    assume "\<exists>ps ss. x # xs = ps @ sub @ ss"
    then obtain ps ss where e: "x # xs = ps @ sub @ ss" by blast
    show "contains sub (x # xs)"
    proof (cases ps)
      case Nil
      with e have "\<exists>ss. x # xs = sub @ ss" by auto
      with pre have "take (length sub) (x # xs) = sub" by simp
      then show ?thesis by simp
    next
      case (Cons p ps')
      with e have "xs = ps' @ sub @ ss" by simp
      with Cons.IH show ?thesis by auto
    qed
  qed
qed

lemma contains_two_Cons:
  "contains [d, d] (x # xs) \<longleftrightarrow> (x = d \<and> xs \<noteq> [] \<and> hd xs = d) \<or> contains [d, d] xs"
proof (cases xs)
  case Nil
  then show ?thesis by simp
next
  case (Cons y ys)
  then show ?thesis by auto
qed

lemma strip_decomp: "\<exists>pre post. s = pre @ strip chars s @ post"
proof -
  let ?P = "\<lambda>c. c \<in> set chars"
  let ?t = "dropWhile ?P s"
  have "rev (dropWhile ?P (rev ?t)) @ rev (takeWhile ?P (rev ?t))
      = rev (takeWhile ?P (rev ?t) @ dropWhile ?P (rev ?t))"
    by (simp only: rev_append)
  also have "\<dots> = ?t"
    by (simp only: takeWhile_dropWhile_id rev_rev_ident)
  finally have "?t = strip chars s @ rev (takeWhile ?P (rev ?t))"
    by (simp only: strip_def)
  moreover have "s = takeWhile ?P s @ ?t" by simp
  ultimately have "s = takeWhile ?P s @ strip chars s @ rev (takeWhile ?P (rev ?t))"
    by simp
  then show ?thesis by blast
qed

lemma strip_contains: "contains sub (strip chars s) \<Longrightarrow> contains sub s"
proof -
  assume "contains sub (strip chars s)"
  then obtain ps ss where m: "strip chars s = ps @ sub @ ss"
    unfolding contains_iff by blast
  obtain pre post where "s = pre @ strip chars s @ post"
    using strip_decomp by blast
  with m have "s = (pre @ ps) @ sub @ (ss @ post)" by simp
  then show ?thesis unfolding contains_iff by blast
qed

lemma strip_set: "set (strip chars s) \<subseteq> set s"
proof -
  obtain pre post where "s = pre @ strip chars s @ post"
    using strip_decomp by blast
  then have "set s = set pre \<union> set (strip chars s) \<union> set post"
    by (metis set_append sup_assoc)
  then show ?thesis by blast
qed

lemma str_replace_set:
  "old \<noteq> [] \<Longrightarrow> set (str_replace old new s) \<subseteq> set s \<union> set new"
proof (induction s rule: length_induct)
  case (1 s)
  show ?case
  proof (cases s)
    case Nil
    with "1.prems" show ?thesis by (simp add: str_replace_Nil)
  next
    case (Cons x xs)
    show ?thesis
    proof (cases "take (length old) s = old")
      case True
      from "1.prems" Cons have "length (drop (length old) s) < length s" by simp
      with "1.IH" "1.prems" have
        "set (str_replace old new (drop (length old) s))
           \<subseteq> set (drop (length old) s) \<union> set new"
        by blast
      moreover have "set (drop (length old) s) \<subseteq> set s" by (rule set_drop_subset)
      ultimately show ?thesis
        unfolding str_replace_match [OF "1.prems" True] by auto
    next
      case False
      from Cons have "length xs < length s" by simp
      with "1.IH" "1.prems" have "set (str_replace old new xs) \<subseteq> set xs \<union> set new"
        by blast
      with False Cons "1.prems" show ?thesis
        by (auto simp: str_replace_nomatch)
    qed
  qed
qed

lemma dotdot_loop_no_dotdot: "\<not> contains (ustr ''..'') (dotdot_loop s)"
proof (induction s rule: dotdot_loop.induct)
  case (1 s)
  show ?case
  proof (cases "contains (ustr ''..'') s")
    case True
    with "1.IH" show ?thesis by (simp add: dotdot_loop.simps [of s])
  next
    case False
    then show ?thesis by (simp add: dotdot_loop.simps [of s])
  qed
qed

lemma dotdot_loop_set: "set (dotdot_loop s) \<subseteq> set s \<union> {95}"
proof (induction s rule: dotdot_loop.induct)
  case (1 s)
  show ?case
  proof (cases "contains (ustr ''..'') s")
    case True
    have "set (str_replace (ustr ''..'') (ustr ''_'') s) \<subseteq> set s \<union> {95}"
      using str_replace_set [of "ustr ''..''" "ustr ''_''" s] by (simp add: ustr_literals)
    with "1.IH" [OF True] have
      "set (dotdot_loop (str_replace (ustr ''..'') (ustr ''_'') s)) \<subseteq> set s \<union> {95}"
      by blast
    with True show ?thesis by (simp add: dotdot_loop.simps [of s])
  next
    case False
    then show ?thesis by (auto simp: dotdot_loop.simps [of s])
  qed
qed

text \<open>Collapsing \<open>__\<close> keeps the first character and makes no two dots adjacent.\<close>

lemma collapse_hd:
  "s \<noteq> [] \<Longrightarrow> str_replace [95, 95] [95] s \<noteq> []
     \<and> hd (str_replace [95, 95] [95] s) = hd s"
proof (cases "take (length [95, 95 :: nat]) s = [95, 95]")
  case True
  assume "s \<noteq> []"
  from True have "hd s = 95" by (cases s) (auto split: if_splits)
  then show ?thesis
    unfolding str_replace_match [of "[95, 95]" s "[95]", OF _ True, simplified] by simp
next
  case False
  assume "s \<noteq> []"
  then obtain x xs where s: "s = x # xs" by (cases s) auto
  with False show ?thesis
    by (simp add: str_replace_nomatch)
qed

lemma collapse_no_dotdot:
  "\<not> contains [46, 46] s \<Longrightarrow> \<not> contains [46, 46] (str_replace [95, 95] [95] s)"
proof (induction s rule: length_induct)
  case (1 s)
  show ?case
  proof (cases s)
    case Nil
    then show ?thesis by (simp add: str_replace_Nil)
  next
    case (Cons x xs)
    show ?thesis
    proof (cases "take (length [95, 95 :: nat]) s = [95, 95]")
      case True
      then obtain rest where s: "s = 95 # 95 # rest"
        using Cons by (cases xs) (auto split: if_splits)
      with "1.prems" have "\<not> contains [46, 46] rest"
        by (simp add: contains_two_Cons del: contains.simps)
      moreover from s have "length rest < length s" by simp
      ultimately have "\<not> contains [46, 46] (str_replace [95, 95] [95] rest)"
        using "1.IH" by blast
      moreover from s have "str_replace [95, 95] [95] s = 95 # str_replace [95, 95] [95] rest"
        using str_replace_match [of "[95, 95]" s "[95]"] by simp
      ultimately show ?thesis by (simp add: contains_two_Cons del: contains.simps)
    next
      case False
      with Cons have e: "str_replace [95, 95] [95] s = x # str_replace [95, 95] [95] xs"
        by (simp add: str_replace_nomatch)
      from "1.prems" Cons have nx: "\<not> contains [46, 46] xs"
        and nh: "\<not> (x = 46 \<and> xs \<noteq> [] \<and> hd xs = 46)"
        by (simp_all add: contains_two_Cons del: contains.simps)
      from Cons have "length xs < length s" by simp
      with nx "1.IH" have r: "\<not> contains [46, 46] (str_replace [95, 95] [95] xs)"
        by blast
      show ?thesis
      proof (cases "xs = []")
        case True
        then show ?thesis by (simp add: e str_replace_Nil)
      next
        case False
        with collapse_hd [of xs] nh r show ?thesis
          by (simp add: e contains_two_Cons del: contains.simps)
      qed
    qed
  qed
qed

lemma sanitized_no_dotdot: "\<not> contains (ustr ''..'') (sanitized uni name)"
proof
  assume "contains (ustr ''..'') (sanitized uni name)"
  then have "contains (ustr ''..'')
      (str_replace (ustr ''__'') (ustr ''_'') (dotdot_loop (SAFE_FILENAME_RE_sub uni name)))"
    unfolding sanitized_def by (rule strip_contains)
  moreover have "\<not> contains (ustr ''..'')
      (str_replace (ustr ''__'') (ustr ''_'') (dotdot_loop (SAFE_FILENAME_RE_sub uni name)))"
    using collapse_no_dotdot [of "dotdot_loop (SAFE_FILENAME_RE_sub uni name)"]
      dotdot_loop_no_dotdot [of "SAFE_FILENAME_RE_sub uni name"]
    by (simp add: ustr_literals)
  ultimately show False by simp
qed

lemma safe_underscore: "safe_char uni 95"
  by (simp add: safe_char_def word_char_def ascii_word_def)

lemma sanitized_safe: "c \<in> set (sanitized uni name) \<Longrightarrow> safe_char uni c"
proof -
  assume "c \<in> set (sanitized uni name)"
  then have "c \<in> set (str_replace (ustr ''__'') (ustr ''_'')
      (dotdot_loop (SAFE_FILENAME_RE_sub uni name)))"
    unfolding sanitized_def using strip_set by blast
  then have "c \<in> set (dotdot_loop (SAFE_FILENAME_RE_sub uni name)) \<union> {95}"
    using str_replace_set [of "ustr ''__''" "ustr ''_''"
        "dotdot_loop (SAFE_FILENAME_RE_sub uni name)"]
    by (auto simp: ustr_literals)
  then have "c \<in> set (SAFE_FILENAME_RE_sub uni name) \<union> {95}"
    using dotdot_loop_set [of "SAFE_FILENAME_RE_sub uni name"] by blast
  then show ?thesis
    by (auto simp: SAFE_FILENAME_RE_sub_def safe_underscore)
qed

lemma file_safe: "c \<in> set (ustr ''file'') \<Longrightarrow> safe_char uni c"
  by (auto simp: ustr_literals safe_char_def word_char_def ascii_word_def)

lemma safe_filename_cases:
  "safe_filename uni name fallback = fallback
   \<or> (\<exists>n. safe_filename uni name fallback = sanitized uni n)"
  by (auto simp: safe_filename_def Let_def)

text \<open>
  What the steps keep. The characters that are neither space, dot nor underscore pass
  through the loop, the collapsing of \<open>__\<close> and the stripping unchanged and in order,
  and a string in which no step finds anything to do is returned as it is.
\<close>

lemma filter_dropWhile_other:
  "(\<And>x. Q x \<Longrightarrow> \<not> P x) \<Longrightarrow> filter P (dropWhile Q xs) = filter P xs"
  by (induction xs) auto

lemma keep_strip:
  assumes "\<And>c. c \<in> set chars \<Longrightarrow> \<not> P c"
  shows "filter P (strip chars s) = filter P s"
proof -
  have d: "filter P (dropWhile (\<lambda>c. c \<in> set chars) xs) = filter P xs" for xs
    by (rule filter_dropWhile_other) (rule assms)
  have "filter P (strip chars s)
      = rev (filter P (dropWhile (\<lambda>c. c \<in> set chars)
          (rev (dropWhile (\<lambda>c. c \<in> set chars) s))))"
    by (simp add: strip_def rev_filter)
  also have "\<dots> = rev (filter P (rev (dropWhile (\<lambda>c. c \<in> set chars) s)))"
    by (simp only: d)
  also have "\<dots> = filter P (dropWhile (\<lambda>c. c \<in> set chars) s)"
    by (simp add: rev_filter)
  also have "\<dots> = filter P s" by (rule d)
  finally show ?thesis .
qed

lemma keep_str_replace:
  "old \<noteq> [] \<Longrightarrow> filter P old = [] \<Longrightarrow> filter P new = []
     \<Longrightarrow> filter P (str_replace old new s) = filter P s"
proof (induction old new s rule: str_replace.induct)
  case (1 old new s)
  show ?case
  proof (cases "s = []")
    case True
    with "1.prems"(1) show ?thesis by (simp add: str_replace_Nil)
  next
    case ne: False
    show ?thesis
    proof (cases "take (length old) s = old")
      case True
      from "1.IH"(1) [OF "1.prems"(1) ne True "1.prems"]
      have ih: "filter P (str_replace old new (drop (length old) s))
          = filter P (drop (length old) s)" .
      have "str_replace old new s = new @ str_replace old new (drop (length old) s)"
        by (rule str_replace_match [OF "1.prems"(1) True])
      hence "filter P (str_replace old new s) = filter P (drop (length old) s)"
        using ih "1.prems"(3) by simp
      moreover have "filter P s = filter P (take (length old) s @ drop (length old) s)"
        by (simp only: append_take_drop_id)
      hence "filter P s = filter P (drop (length old) s)"
        using True "1.prems"(2) by (simp only: filter_append) simp
      ultimately show ?thesis by simp
    next
      case False
      from "1.IH"(2) [OF "1.prems"(1) ne False "1.prems"]
      have ih: "filter P (str_replace old new (tl s)) = filter P (tl s)" .
      from False ne "1.prems"(1) have
        "str_replace old new s = hd s # str_replace old new (tl s)"
        by (cases s) (simp_all add: str_replace_nomatch)
      thus ?thesis using ih ne by (cases s) simp_all
    qed
  qed
qed

lemma keep_dotdot_loop:
  "\<not> P 46 \<Longrightarrow> \<not> P 95 \<Longrightarrow> filter P (dotdot_loop s) = filter P s"
proof (induction s rule: dotdot_loop.induct)
  case (1 s)
  show ?case
  proof (cases "contains (ustr ''..'') s")
    case True
    have "filter P (str_replace (ustr ''..'') (ustr ''_'') s) = filter P s"
      using "1.prems" by (intro keep_str_replace) (simp_all add: ustr_literals)
    with "1.IH" [OF True "1.prems"] True show ?thesis
      by (subst dotdot_loop.simps) simp
  next
    case False
    thus ?thesis by (subst dotdot_loop.simps) simp
  qed
qed

lemma keep_sub:
  "\<not> P 95 \<Longrightarrow>
     filter P (SAFE_FILENAME_RE_sub uni n) = filter (\<lambda>c. safe_char uni c \<and> P c) n"
  by (induction n) (auto simp: SAFE_FILENAME_RE_sub_def)

lemma keep_sanitized:
  "filter (\<lambda>c. c \<notin> set (ustr '' ._'')) (sanitized uni n)
     = filter (\<lambda>c. safe_char uni c \<and> c \<notin> set (ustr '' ._'')) n"
proof -
  let ?P = "\<lambda>c::nat. c \<notin> set (ustr '' ._'')"
  have p: "\<not> ?P 46" "\<not> ?P 95" by (simp_all add: ustr_literals)
  have "filter ?P (sanitized uni n)
      = filter ?P (str_replace (ustr ''__'') (ustr ''_'')
          (dotdot_loop (SAFE_FILENAME_RE_sub uni n)))"
    unfolding sanitized_def by (rule keep_strip) simp
  also have "\<dots> = filter ?P (dotdot_loop (SAFE_FILENAME_RE_sub uni n))"
    by (rule keep_str_replace) (simp_all add: ustr_literals)
  also have "\<dots> = filter ?P (SAFE_FILENAME_RE_sub uni n)"
    by (rule keep_dotdot_loop [where P="?P", OF p])
  also have "\<dots> = filter (\<lambda>c. safe_char uni c \<and> ?P c) n"
    by (rule keep_sub [where P="?P", OF p(2)])
  finally show ?thesis .
qed

lemma dropWhile_all: "(\<And>x. x \<in> set xs \<Longrightarrow> Q x) \<Longrightarrow> dropWhile Q xs = []"
  by (induction xs) simp_all

lemma strip_only_chars: "set s \<subseteq> set chars \<Longrightarrow> strip chars s = []"
proof -
  assume a: "set s \<subseteq> set chars"
  have d: "dropWhile (\<lambda>c. c \<in> set chars) s = []"
  proof (rule dropWhile_all)
    fix x assume "x \<in> set s"
    with a show "x \<in> set chars" by (rule subsetD)
  qed
  show ?thesis unfolding strip_def d by simp
qed

lemma sanitized_empty_iff:
  "sanitized uni n = []
     \<longleftrightarrow> filter (\<lambda>c. safe_char uni c \<and> c \<notin> set (ustr '' ._'')) n = []"
proof
  assume "sanitized uni n = []"
  with keep_sanitized [of uni n] show
    "filter (\<lambda>c. safe_char uni c \<and> c \<notin> set (ustr '' ._'')) n = []" by simp
next
  let ?P = "\<lambda>c::nat. c \<notin> set (ustr '' ._'')"
  let ?t = "str_replace (ustr ''__'') (ustr ''_'') (dotdot_loop (SAFE_FILENAME_RE_sub uni n))"
  assume e: "filter (\<lambda>c. safe_char uni c \<and> c \<notin> set (ustr '' ._'')) n = []"
  have p: "\<not> ?P 46" "\<not> ?P 95" by (simp_all add: ustr_literals)
  have "filter ?P ?t = filter ?P (dotdot_loop (SAFE_FILENAME_RE_sub uni n))"
    by (rule keep_str_replace) (simp_all add: ustr_literals)
  also have "\<dots> = filter ?P (SAFE_FILENAME_RE_sub uni n)"
    by (rule keep_dotdot_loop [where P="?P", OF p])
  also have "\<dots> = filter (\<lambda>c. safe_char uni c \<and> ?P c) n"
    by (rule keep_sub [where P="?P", OF p(2)])
  finally have "filter ?P ?t = []" using e by simp
  hence "set ?t \<subseteq> set (ustr '' ._'')" by (auto simp: filter_empty_conv)
  hence "strip (ustr '' ._'') ?t = []" by (rule strip_only_chars)
  thus "sanitized uni n = []" by (simp add: sanitized_def)
qed

lemma dotdot_loop_clean: "\<not> contains (ustr ''..'') t \<Longrightarrow> dotdot_loop t = t"
  by (subst dotdot_loop.simps) simp

lemma str_replace_clean:
  "old \<noteq> [] \<Longrightarrow> \<not> contains old t \<Longrightarrow> str_replace old new t = t"
proof (induction t)
  case Nil
  thus ?case by (simp add: str_replace_Nil)
next
  case (Cons x xs)
  from Cons.prems(2) have a: "take (length old) (x # xs) \<noteq> old" and b: "\<not> contains old xs"
    by simp_all
  from str_replace_nomatch [OF Cons.prems(1) a] Cons.IH [OF Cons.prems(1) b]
  show ?case by simp
qed

lemma strip_clean:
  "t \<noteq> [] \<Longrightarrow> hd t \<notin> set chars \<Longrightarrow> last t \<notin> set chars \<Longrightarrow> strip chars t = t"
proof -
  assume t: "t \<noteq> []" and h: "hd t \<notin> set chars" and l: "last t \<notin> set chars"
  from t h have a: "dropWhile (\<lambda>c. c \<in> set chars) t = t" by (cases t) simp_all
  from t l have "hd (rev t) \<notin> set chars" by (simp add: hd_rev)
  with t have b: "dropWhile (\<lambda>c. c \<in> set chars) (rev t) = rev t"
    by (cases "rev t") simp_all
  show ?thesis by (simp add: strip_def a b)
qed

lemma sanitized_clean:
  assumes "n \<noteq> []"
    and "\<not> contains (ustr ''..'') (SAFE_FILENAME_RE_sub uni n)"
    and "\<not> contains (ustr ''__'') (SAFE_FILENAME_RE_sub uni n)"
    and "hd (SAFE_FILENAME_RE_sub uni n) \<notin> set (ustr '' ._'')"
    and "last (SAFE_FILENAME_RE_sub uni n) \<notin> set (ustr '' ._'')"
  shows "sanitized uni n = SAFE_FILENAME_RE_sub uni n"
proof -
  have ne: "SAFE_FILENAME_RE_sub uni n \<noteq> []" using assms(1)
    by (simp add: SAFE_FILENAME_RE_sub_def)
  have u: "ustr ''__'' \<noteq> []" by (simp add: ustr_literals)
  show ?thesis
    unfolding sanitized_def
    by (simp only: dotdot_loop_clean [OF assms(2)] str_replace_clean [OF u assms(3)]
        strip_clean [OF ne assms(4,5)])
qed

text \<open>
  C10. With the default fallback \<open>file\<close>, \<open>safe_filename\<close> returns a non-empty string
  with no path separator (\<open>/\<close> is 47, \<open>\\<close> is 92) and no \<open>..\<close> in it, all of whose
  characters are word characters, space, dash, dot, parentheses or Cyrillic letters. The
  result is tied to the name as follows. For no name or the empty name it is the
  fallback. Otherwise the characters of the result other than space, dot and underscore
  are the characters of the name that are in the class and are none of these three, in
  the order of the name; when the name has no such character the sanitized string is
  empty and the fallback is returned. And when the name with every character outside
  the class replaced by an underscore has no \<open>..\<close> and no \<open>__\<close> in it and neither starts
  nor ends with a space, a dot or an underscore, the result is that string: each
  character of the class in its place, an underscore in the place of every other.
\<close>

theorem safe_filename_is_safe:
  "safe_filename uni name (ustr ''file'') \<noteq> []
   \<and> 47 \<notin> set (safe_filename uni name (ustr ''file''))
   \<and> 92 \<notin> set (safe_filename uni name (ustr ''file''))
   \<and> \<not> contains (ustr ''..'') (safe_filename uni name (ustr ''file''))
   \<and> (\<forall>c\<in>set (safe_filename uni name (ustr ''file'')). safe_char uni c)
   \<and> (name = None \<or> name = Some [] \<longrightarrow> safe_filename uni name (ustr ''file'') = ustr ''file'')
   \<and> (name = Some n \<and> n \<noteq> [] \<longrightarrow>
        (filter (\<lambda>c. safe_char uni c \<and> c \<notin> set (ustr '' ._'')) n = []
           \<longrightarrow> safe_filename uni name (ustr ''file'') = ustr ''file'')
        \<and> (filter (\<lambda>c. safe_char uni c \<and> c \<notin> set (ustr '' ._'')) n \<noteq> []
           \<longrightarrow> filter (\<lambda>c. c \<notin> set (ustr '' ._'')) (safe_filename uni name (ustr ''file''))
                 = filter (\<lambda>c. safe_char uni c \<and> c \<notin> set (ustr '' ._'')) n)
        \<and> (\<not> contains (ustr ''..'') (map (\<lambda>c. if safe_char uni c then c else 95) n)
            \<and> \<not> contains (ustr ''__'') (map (\<lambda>c. if safe_char uni c then c else 95) n)
            \<and> hd (map (\<lambda>c. if safe_char uni c then c else 95) n) \<notin> set (ustr '' ._'')
            \<and> last (map (\<lambda>c. if safe_char uni c then c else 95) n) \<notin> set (ustr '' ._'')
           \<longrightarrow> safe_filename uni name (ustr ''file'')
                 = map (\<lambda>c. if safe_char uni c then c else 95) n))"
proof -
  let ?r = "safe_filename uni name (ustr ''file'')"
  let ?E = "\<lambda>c::nat. c \<notin> set (ustr '' ._'')"
  let ?t = "map (\<lambda>c. if safe_char uni c then c else 95) n"
  have safe: "safe_char uni c" if "c \<in> set ?r" for c
    using that safe_filename_cases [of uni name "ustr ''file''"] sanitized_safe file_safe
    by auto
  have ne: "?r \<noteq> []"
    by (auto simp: safe_filename_def Let_def ustr_literals)
  have nodd: "\<not> contains (ustr ''..'') ?r"
  proof -
    have "\<not> contains (ustr ''..'') (ustr ''file'')"
      by (simp add: ustr_literals)
    with sanitized_no_dotdot safe_filename_cases [of uni name "ustr ''file''"]
    show ?thesis by auto
  qed
  have slash: "\<not> safe_char uni 47" and backslash: "\<not> safe_char uni 92"
    by (simp_all add: safe_char_def word_char_def ascii_word_def)
  have c2: "47 \<notin> set ?r" using safe slash by blast
  have c3: "92 \<notin> set ?r" using safe backslash by blast
  have c5: "\<forall>c\<in>set ?r. safe_char uni c" using safe by blast
  have fb: "sanitized uni (ustr ''file'') = ustr ''file''"
  proof -
    have s: "SAFE_FILENAME_RE_sub uni (ustr ''file'') = ustr ''file''"
      by (simp add: SAFE_FILENAME_RE_sub_def ustr_literals safe_char_def word_char_def
          ascii_word_def)
    have "sanitized uni (ustr ''file'') = SAFE_FILENAME_RE_sub uni (ustr ''file'')"
      by (rule sanitized_clean) (simp_all add: s, simp_all add: ustr_literals)
    thus ?thesis by (simp only: s)
  qed
  have c6: "name = None \<or> name = Some [] \<longrightarrow> ?r = ustr ''file''"
    by (auto simp: safe_filename_def Let_def fb)
  have c7: "name = Some n \<and> n \<noteq> [] \<longrightarrow>
        (filter (\<lambda>c. safe_char uni c \<and> ?E c) n = [] \<longrightarrow> ?r = ustr ''file'')
        \<and> (filter (\<lambda>c. safe_char uni c \<and> ?E c) n \<noteq> []
           \<longrightarrow> filter ?E ?r = filter (\<lambda>c. safe_char uni c \<and> ?E c) n)
        \<and> (\<not> contains (ustr ''..'') ?t \<and> \<not> contains (ustr ''__'') ?t
            \<and> hd ?t \<notin> set (ustr '' ._'') \<and> last ?t \<notin> set (ustr '' ._'')
           \<longrightarrow> ?r = ?t)"
  proof (intro impI)
    assume a: "name = Some n \<and> n \<noteq> []"
    hence r: "?r = (if sanitized uni n = [] then ustr ''file'' else sanitized uni n)"
      by (simp add: safe_filename_def Let_def)
    have p1: "filter (\<lambda>c. safe_char uni c \<and> ?E c) n = [] \<longrightarrow> ?r = ustr ''file''"
      using r sanitized_empty_iff [of uni n] by simp
    have p2: "filter (\<lambda>c. safe_char uni c \<and> ?E c) n \<noteq> []
           \<longrightarrow> filter ?E ?r = filter (\<lambda>c. safe_char uni c \<and> ?E c) n"
      using r sanitized_empty_iff [of uni n] keep_sanitized [of uni n] by simp
    have p3: "\<not> contains (ustr ''..'') ?t \<and> \<not> contains (ustr ''__'') ?t
            \<and> hd ?t \<notin> set (ustr '' ._'') \<and> last ?t \<notin> set (ustr '' ._'')
           \<longrightarrow> ?r = ?t"
    proof
      assume c: "\<not> contains (ustr ''..'') ?t \<and> \<not> contains (ustr ''__'') ?t
            \<and> hd ?t \<notin> set (ustr '' ._'') \<and> last ?t \<notin> set (ustr '' ._'')"
      have "sanitized uni n = SAFE_FILENAME_RE_sub uni n"
        using a c by (intro sanitized_clean) (simp_all add: SAFE_FILENAME_RE_sub_def)
      hence s: "sanitized uni n = ?t" by (simp add: SAFE_FILENAME_RE_sub_def)
      have "?t \<noteq> []" using a by simp
      thus "?r = ?t" using r s by simp
    qed
    from p1 p2 p3 show
      "(filter (\<lambda>c. safe_char uni c \<and> ?E c) n = [] \<longrightarrow> ?r = ustr ''file'')
        \<and> (filter (\<lambda>c. safe_char uni c \<and> ?E c) n \<noteq> []
           \<longrightarrow> filter ?E ?r = filter (\<lambda>c. safe_char uni c \<and> ?E c) n)
        \<and> (\<not> contains (ustr ''..'') ?t \<and> \<not> contains (ustr ''__'') ?t
            \<and> hd ?t \<notin> set (ustr '' ._'') \<and> last ?t \<notin> set (ustr '' ._'')
           \<longrightarrow> ?r = ?t)"
      by (intro conjI)
  qed
  from ne c2 c3 nodd c5 c6 c7 show ?thesis by (intro conjI)
qed

theorem safe_filename_is_safe_witness:
  "safe_filename (\<lambda>c. False) (Some (ustr ''my/clip?.mp4'')) (ustr ''file'')
     = ustr ''my_clip_.mp4''
   \<and> safe_filename (\<lambda>c. False) None (ustr ''file'') = ustr ''file''
   \<and> safe_filename (\<lambda>c. False) (Some (ustr ''../..'')) (ustr ''file'') = ustr ''file''
   \<and> safe_filename (\<lambda>c. False) (Some (ustr ''bad/../name'')) (ustr ''file'')
     = ustr ''bad__name''
   \<and> filter (\<lambda>c. c \<notin> set (ustr '' ._''))
        (safe_filename (\<lambda>c. False) (Some (ustr ''bad/../name'')) (ustr ''file''))
     = ustr ''badname''
   \<and> 98 \<in> set (safe_filename (\<lambda>c. False) (Some (ustr ''bad/../name'')) (ustr ''file''))
   \<and> safe_char (\<lambda>c. False) 98"
proof -
  let ?u = "\<lambda>c::nat. False"
  let ?E = "\<lambda>c::nat. c \<notin> set (ustr '' ._'')"
  let ?sub = "\<lambda>c. if safe_char ?u c then c else 95"
  have clip: "ustr ''my/clip?.mp4'' = [109, 121, 47, 99, 108, 105, 112, 63, 46, 109, 112, 52]"
    and clip': "ustr ''my_clip_.mp4'' = [109, 121, 95, 99, 108, 105, 112, 95, 46, 109, 112, 52]"
    and bad: "ustr ''bad/../name'' = [98, 97, 100, 47, 46, 46, 47, 110, 97, 109, 101]"
    and good: "ustr ''bad__name'' = [98, 97, 100, 95, 95, 110, 97, 109, 101]"
    and ess: "ustr ''badname'' = [98, 97, 100, 110, 97, 109, 101]"
    and dots: "ustr ''../..'' = [46, 46, 47, 46, 46]"
    by (simp_all add: ustr_def)
  have m1: "map ?sub (ustr ''my/clip?.mp4'') = ustr ''my_clip_.mp4''"
    by (simp add: clip clip' safe_char_def word_char_def ascii_word_def)
  have h1: "\<not> contains (ustr ''..'') (map ?sub (ustr ''my/clip?.mp4''))
            \<and> \<not> contains (ustr ''__'') (map ?sub (ustr ''my/clip?.mp4''))
            \<and> hd (map ?sub (ustr ''my/clip?.mp4'')) \<notin> set (ustr '' ._'')
            \<and> last (map ?sub (ustr ''my/clip?.mp4'')) \<notin> set (ustr '' ._'')"
    unfolding m1 by (simp add: clip' ustr_literals)
  have n1: "Some (ustr ''my/clip?.mp4'') = Some (ustr ''my/clip?.mp4'')
            \<and> ustr ''my/clip?.mp4'' \<noteq> []"
    by (simp add: clip)
  have "safe_filename ?u (Some (ustr ''my/clip?.mp4'')) (ustr ''file'')
      = map ?sub (ustr ''my/clip?.mp4'')"
    by (rule safe_filename_is_safe
        [where uni="?u" and name="Some (ustr ''my/clip?.mp4'')" and n="ustr ''my/clip?.mp4''",
          THEN conjunct2, THEN conjunct2, THEN conjunct2, THEN conjunct2, THEN conjunct2,
          THEN conjunct2, THEN mp, OF n1, THEN conjunct2, THEN conjunct2, THEN mp, OF h1])
  hence e1: "safe_filename ?u (Some (ustr ''my/clip?.mp4'')) (ustr ''file'')
      = ustr ''my_clip_.mp4''"
    by (simp only: m1)
  have e2: "safe_filename ?u None (ustr ''file'') = ustr ''file''"
    by (rule safe_filename_is_safe
        [where uni="?u" and name=None,
          THEN conjunct2, THEN conjunct2, THEN conjunct2, THEN conjunct2, THEN conjunct2,
          THEN conjunct1, THEN mp, OF disjI1 [OF refl]])
  have n3: "Some (ustr ''../..'') = Some (ustr ''../..'') \<and> ustr ''../..'' \<noteq> []"
    by (simp add: dots)
  have f3: "filter (\<lambda>c. safe_char ?u c \<and> ?E c) (ustr ''../..'') = []"
    by (simp add: dots ustr_literals safe_char_def word_char_def ascii_word_def)
  have e3: "safe_filename ?u (Some (ustr ''../..'')) (ustr ''file'') = ustr ''file''"
    by (rule safe_filename_is_safe
        [where uni="?u" and name="Some (ustr ''../..'')" and n="ustr ''../..''",
          THEN conjunct2, THEN conjunct2, THEN conjunct2, THEN conjunct2, THEN conjunct2,
          THEN conjunct2, THEN mp, OF n3, THEN conjunct1, THEN mp, OF f3])
  have s4: "sanitized ?u (ustr ''bad/../name'') = ustr ''bad__name''"
    unfolding bad good
    by (simp add: sanitized_def SAFE_FILENAME_RE_sub_def safe_char_def word_char_def
        ascii_word_def dotdot_loop.simps str_replace.simps strip_def ustr_literals)
  have e4: "safe_filename ?u (Some (ustr ''bad/../name'')) (ustr ''file'')
      = ustr ''bad__name''"
    using s4 by (simp add: safe_filename_def Let_def bad good)
  have n5: "Some (ustr ''bad/../name'') = Some (ustr ''bad/../name'')
            \<and> ustr ''bad/../name'' \<noteq> []"
    by (simp add: bad)
  have f5: "filter (\<lambda>c. safe_char ?u c \<and> ?E c) (ustr ''bad/../name'') = ustr ''badname''"
    by (simp add: bad ess ustr_literals safe_char_def word_char_def ascii_word_def)
  have f5': "filter (\<lambda>c. safe_char ?u c \<and> ?E c) (ustr ''bad/../name'') \<noteq> []"
    unfolding f5 by (simp add: ess)
  have "filter ?E (safe_filename ?u (Some (ustr ''bad/../name'')) (ustr ''file''))
      = filter (\<lambda>c. safe_char ?u c \<and> ?E c) (ustr ''bad/../name'')"
    by (rule safe_filename_is_safe
        [where uni="?u" and name="Some (ustr ''bad/../name'')" and n="ustr ''bad/../name''",
          THEN conjunct2, THEN conjunct2, THEN conjunct2, THEN conjunct2, THEN conjunct2,
          THEN conjunct2, THEN mp, OF n5, THEN conjunct2, THEN conjunct1, THEN mp, OF f5'])
  hence e5: "filter ?E (safe_filename ?u (Some (ustr ''bad/../name'')) (ustr ''file''))
      = ustr ''badname''"
    by (simp only: f5)
  have m: "98 \<in> set (safe_filename ?u (Some (ustr ''bad/../name'')) (ustr ''file''))"
    unfolding e4 good by simp
  have c: "safe_char ?u 98"
    using safe_filename_is_safe
        [where uni="?u" and name="Some (ustr ''bad/../name'')",
          THEN conjunct2, THEN conjunct2, THEN conjunct2, THEN conjunct2,
          THEN conjunct1, THEN bspec, OF m] .
  from e1 e2 e3 e4 e5 m c show ?thesis by (intro conjI)
qed

section \<open>The sweep and the age of directories\<close>

lemma delete_path_removes: "delete_path n = None" "delete_children entries = []"
  by (induction n and entries rule: delete_path_delete_children.induct) simp_all

lemma visit_file: "visit now ttl (File m) = None \<longleftrightarrow> now - m > real_of_int ttl"
  by simp

text \<open>
  C8. One sweep removes a file older than the TTL and leaves a newer file in place,
  whatever the age of the directories above it. The sweep does remove an old file when
  it reaches it (lemma \<open>visit_file\<close>), but it does not leave every newer file: with a TTL
  of 50 at time 100, the file \<open>job1/video.mp4\<close> modified at 95 (age 5) lies in the
  directory \<open>job1\<close> modified at 0 (age 100). The file is kept when it is visited, then
  \<open>job1\<close> is found expired and \<open>delete_path\<close> deletes it with all its content: after the
  sweep the file is gone.
\<close>

theorem sweep_deletes_new_file_in_old_directory:
  "lookup_path (Dir 100 [(''job1'', Dir 0 [(''video.mp4'', File 95)])])
       [''job1'', ''video.mp4''] = Some (File 95)
   \<and> \<not> (100 - 95 > real_of_int 50)
   \<and> cleanup_expired_files
       (Some (Dir 100 [(''job1'', Dir 0 [(''video.mp4'', File 95)])])) 50 100
     = Inr (Some (Dir 100 []))
   \<and> lookup_path (Dir 100 []) [''job1'', ''video.mp4''] = None"
  by (simp add: cleanup_expired_files_def)

section \<open>Float arithmetic\<close>

text \<open>
  \<open>float_exponent\<close> is the binary exponent of a positive number, and \<open>fl\<close> returns a
  number with a significand of 53 bits at that exponent (or the next power of two) that
  differs from its argument by at most half a unit in the last place.
\<close>

lemma bit_length_numeral:
  "bit_length 0 = 0" "bit_length (Suc 0) = Suc 0"
  "bit_length (numeral k) = Suc (bit_length (numeral k div 2))"
  by (simp_all add: bit_length.simps [of 0] bit_length.simps [of "Suc 0"]
      bit_length.simps [of "numeral k"])

lemma bit_length_bounds: "0 < n \<Longrightarrow> 2 ^ (bit_length n - 1) \<le> n \<and> n < 2 ^ bit_length n"
proof (induction n rule: bit_length.induct)
  case (1 n)
  show ?case
  proof (cases "n div 2 = 0")
    case True
    with "1.prems" have "n = 1" by auto
    thus ?thesis by (simp add: bit_length_numeral)
  next
    case False
    hence h: "0 < n div 2" by simp
    from "1.IH" [OF _ h] "1.prems"
    have ih: "2 ^ (bit_length (n div 2) - 1) \<le> n div 2" "n div 2 < 2 ^ bit_length (n div 2)"
      by simp_all
    have b: "bit_length n = Suc (bit_length (n div 2))"
      using "1.prems" by (subst bit_length.simps) simp
    have pos: "0 < bit_length (n div 2)"
      using h by (subst bit_length.simps) simp
    hence e: "2 ^ (bit_length n - 1) = 2 * (2::nat) ^ (bit_length (n div 2) - 1)"
      unfolding b by (cases "bit_length (n div 2)") simp_all
    have "2 * (n div 2) \<le> n" by simp
    with ih(1) have l: "2 ^ (bit_length n - 1) \<le> n" unfolding e by linarith
    have "n < 2 * (n div 2) + 2" by linarith
    moreover have "2 * (n div 2) + 2 \<le> 2 * 2 ^ bit_length (n div 2)" using ih(2) by simp
    ultimately have u: "n < 2 ^ bit_length n" unfolding b by simp
    from l u show ?thesis by simp
  qed
qed

lemma pow2_nat: "pow2 (int k) = 2 ^ k" "pow2 (- int k) = 1 / 2 ^ k"
  by (simp_all add: pow2_def)

lemma float_exponent_bounds:
  assumes "0 < x"
  shows "pow2 (float_exponent x) \<le> x \<and> x < pow2 (float_exponent x + 1)"
proof (cases "1 \<le> x")
  case True
  define n where "n = nat \<lfloor>x\<rfloor>"
  have fx: "1 \<le> \<lfloor>x\<rfloor>" using True by linarith
  have rn: "real n = of_int \<lfloor>x\<rfloor>" unfolding n_def using fx by simp
  have n: "0 < n" "real n \<le> x" "x < real n + 1"
  proof -
    show "0 < n" unfolding n_def using fx by simp
    show "real n \<le> x" unfolding rn by linarith
    show "x < real n + 1" unfolding rn by linarith
  qed
  from bit_length_bounds [OF n(1)] have b: "2 ^ (bit_length n - 1) \<le> n" "n < 2 ^ bit_length n"
    by simp_all
  have pos: "0 < bit_length n" using n(1) by (subst bit_length.simps) simp
  have e: "float_exponent x = int (bit_length n - 1)"
    using True pos by (simp add: float_exponent_def n_def)
  have e1: "float_exponent x + 1 = int (bit_length n)"
    using e pos by simp
  have "(2::real) ^ (bit_length n - 1) = real (2 ^ (bit_length n - 1))" by simp
  also have "\<dots> \<le> real n" using b(1) by (simp only: of_nat_le_iff)
  also have "\<dots> \<le> x" by (rule n(2))
  finally have l: "pow2 (float_exponent x) \<le> x" unfolding e pow2_nat .
  have s: "n + 1 \<le> 2 ^ bit_length n" using b(2) by simp
  have "x < real (n + 1)" using n(3) by simp
  also have "\<dots> \<le> real (2 ^ bit_length n)" using s by (simp only: of_nat_le_iff)
  also have "\<dots> = 2 ^ bit_length n" by simp
  finally have u: "x < pow2 (float_exponent x + 1)" unfolding e1 pow2_nat .
  from l u show ?thesis by simp
next
  case False
  hence x1: "x < 1" by simp
  define m where "m = nat \<lceil>1 / x\<rceil>"
  have inv: "1 < 1 / x" using assms x1 by simp
  hence c: "2 \<le> \<lceil>1 / x\<rceil>" by linarith
  have c0: "0 \<le> \<lceil>1 / x\<rceil>" using c by arith
  have rm: "real m = of_int \<lceil>1 / x\<rceil>" unfolding m_def using c0 by (simp only: of_nat_nat)
  have m: "2 \<le> m" "1 / x \<le> real m" "real m - 1 < 1 / x"
  proof -
    show "2 \<le> m" unfolding m_def using c by arith
    show "1 / x \<le> real m" unfolding rm by linarith
    show "real m - 1 < 1 / x" unfolding rm by linarith
  qed
  have k: "nat (\<lceil>1 / x\<rceil> - 1) = m - 1" unfolding m_def using c by arith
  have mpos: "0 < m - 1" using m(1) by simp
  from bit_length_bounds [OF mpos]
  have b: "2 ^ (bit_length (m - 1) - 1) \<le> m - 1" "m - 1 < 2 ^ bit_length (m - 1)"
    by simp_all
  have pos: "0 < bit_length (m - 1)" using mpos by (subst bit_length.simps) simp
  have e: "float_exponent x = - int (bit_length (m - 1))"
    using False by (simp add: float_exponent_def k)
  have e1: "float_exponent x + 1 = - int (bit_length (m - 1) - 1)"
    using e pos by simp
  have s: "m \<le> 2 ^ bit_length (m - 1)" using b(2) by simp
  have "1 / x \<le> real m" by (rule m(2))
  also have "\<dots> \<le> real (2 ^ bit_length (m - 1))" using s by (simp only: of_nat_le_iff)
  also have "\<dots> = 2 ^ bit_length (m - 1)" by simp
  finally have "1 / x \<le> 2 ^ bit_length (m - 1)" .
  hence "1 \<le> 2 ^ bit_length (m - 1) * x" using assms by (simp add: pos_divide_le_eq)
  hence "1 / 2 ^ bit_length (m - 1) \<le> x" by (simp add: pos_divide_le_eq mult.commute)
  hence l: "pow2 (float_exponent x) \<le> x" unfolding e pow2_nat .
  have "(2::real) ^ (bit_length (m - 1) - 1) = real (2 ^ (bit_length (m - 1) - 1))" by simp
  also have "\<dots> \<le> real (m - 1)" using b(1) by (simp only: of_nat_le_iff)
  also have "\<dots> = real m - 1" using m(1) by (simp add: of_nat_diff)
  also have "\<dots> < 1 / x" by (rule m(3))
  finally have "2 ^ (bit_length (m - 1) - 1) < 1 / x" .
  hence "2 ^ (bit_length (m - 1) - 1) * x < 1" using assms by (simp add: pos_less_divide_eq)
  hence "x < 1 / 2 ^ (bit_length (m - 1) - 1)"
    by (simp add: pos_less_divide_eq mult.commute)
  hence u: "x < pow2 (float_exponent x + 1)" unfolding e1 pow2_nat .
  from l u show ?thesis by simp
qed

lemma pow2_powr: "pow2 k = 2 powr (real_of_int k)"
proof (cases "0 \<le> k")
  case True
  hence r: "real_of_int k = real (nat k)" by simp
  have "(2::real) ^ nat k = 2 powr real (nat k)" by (simp add: powr_realpow)
  thus ?thesis using True unfolding r by (simp add: pow2_def)
next
  case False
  hence r: "real_of_int k = - real (nat (- k))" by simp
  have "1 / (2::real) ^ nat (- k) = 2 powr (- real (nat (- k)))"
    by (simp add: powr_minus powr_realpow inverse_eq_divide)
  thus ?thesis using False unfolding r by (simp add: pow2_def)
qed

lemma round_half_even_near: "\<bar>of_int (round_half_even y) - y\<bar> \<le> 1 / 2"
  unfolding round_half_even_def Let_def by (auto; linarith)

lemma fl_nearest:
  assumes "0 < x"
  shows "\<bar>fl x - x\<bar> \<le> pow2 (float_exponent x - 53)"
proof -
  let ?e = "float_exponent x"
  let ?m = "round_half_even (x * pow2 (52 - ?e))"
  have p: "pow2 (52 - ?e) * pow2 (?e - 52) = 1"
    by (simp add: pow2_powr powr_add [symmetric])
  have h: "pow2 (?e - 52) / 2 = pow2 (?e - 53)"
    by (simp add: pow2_powr powr_diff)
  have pos: "0 < pow2 (?e - 52)" by (simp add: pow2_powr)
  have f: "fl x = of_int ?m * pow2 (?e - 52)" using assms by (simp add: fl_def)
  have "fl x - x = (of_int ?m - x * pow2 (52 - ?e)) * pow2 (?e - 52)"
    using p by (simp add: f algebra_simps)
  hence "\<bar>fl x - x\<bar> = \<bar>of_int ?m - x * pow2 (52 - ?e)\<bar> * pow2 (?e - 52)"
    using pos by (simp add: abs_mult)
  also have "\<dots> \<le> 1 / 2 * pow2 (?e - 52)"
    using round_half_even_near [of "x * pow2 (52 - ?e)"] pos
    by (intro mult_right_mono) simp_all
  also have "\<dots> = pow2 (?e - 53)" using h by simp
  finally show ?thesis .
qed

lemma round_half_even_mono_int:
  "of_int a \<le> y \<Longrightarrow> y \<le> of_int b \<Longrightarrow> a \<le> round_half_even y \<and> round_half_even y \<le> b"
  unfolding round_half_even_def Let_def by (auto; linarith)

lemma fl_significand:
  assumes "0 < x"
  shows "fl x = of_int (round_half_even (x * pow2 (52 - float_exponent x)))
                  * pow2 (float_exponent x - 52)
         \<and> 2 ^ 52 \<le> round_half_even (x * pow2 (52 - float_exponent x))
         \<and> round_half_even (x * pow2 (52 - float_exponent x)) \<le> 2 ^ 53"
proof -
  let ?e = "float_exponent x"
  let ?s = "pow2 (52 - ?e)"
  have pos: "0 < ?s" by (simp add: pow2_powr)
  from float_exponent_bounds [OF assms]
  have b: "pow2 ?e \<le> x" "x < pow2 (?e + 1)" by simp_all
  have l: "pow2 ?e * ?s = 2 ^ 52"
    by (simp add: pow2_powr powr_add [symmetric])
  have u: "pow2 (?e + 1) * ?s = 2 ^ 53"
    by (simp add: pow2_powr powr_add [symmetric])
  have "pow2 ?e * ?s \<le> x * ?s" using b(1) pos by (intro mult_right_mono) simp_all
  hence lo: "of_int (2 ^ 52) \<le> x * ?s" unfolding l by simp
  have "x * ?s \<le> pow2 (?e + 1) * ?s" using b(2) pos by (intro mult_right_mono) simp_all
  hence hi: "x * ?s \<le> of_int (2 ^ 53)" unfolding u by simp
  from round_half_even_mono_int [OF lo hi]
  have "2 ^ 52 \<le> round_half_even (x * ?s) \<and> round_half_even (x * ?s) \<le> 2 ^ 53" .
  moreover have "fl x = of_int (round_half_even (x * ?s)) * pow2 (?e - 52)"
    using assms by (simp add: fl_def)
  ultimately show ?thesis by simp
qed

section \<open>The invariant of a job's life\<close>

subsection \<open>An update as seen by a client\<close>

lemma field_job_update:
  assumes "''job_id'' \<notin> dom u" and "k \<noteq> ''updated_at''" and "k \<noteq> ''job_id''"
    and "job_update (Some b) job_id u now = Inr (b', c)"
  shows "field_or_none b' job_id k = (case u k of None \<Rightarrow> field_or_none b job_id k | Some x \<Rightarrow> x)"
proof -
  let ?c1 = "case get b job_id of None \<Rightarrow> [''job_id'' \<mapsto> JStr job_id]
      | Some c \<Rightarrow> if ''job_id'' \<in> dom c then c else c(''job_id'' \<mapsto> JStr job_id)"
  let ?data = "(?c1 ++ u)(''updated_at'' \<mapsto> JNum now)"
  from assms(4) have b': "b' = set_job b job_id ?data"
    unfolding job_update_eq [OF assms(1)] by auto
  have ne: "?data \<noteq> Map.empty" by simp
  have "stored_field b' job_id k = ?data k"
    unfolding b' by (rule stored_field_set_job [OF ne])
  also have "\<dots> = (case u k of None \<Rightarrow> ?c1 k | Some x \<Rightarrow> Some x)"
    using assms(2) by (simp add: map_add_def)
  also have "?c1 k = stored_field b job_id k"
    using assms(3) by (simp add: stored_field_def split: option.splits)
  finally show ?thesis
    by (simp add: field_or_none_def split: option.splits)
qed

lemma field_run_job_update:
  "field_or_none (RQ (run_job_update r job_id u)) job_id k
     = (case u k of None \<Rightarrow> field_or_none (RQ r) job_id k | Some x \<Rightarrow> x)"
  by (simp add: field_or_none_def stored_field_def run_job_update_get map_add_def
      split: option.splits)

lemma view_job_update:
  assumes "''job_id'' \<notin> dom u" and "job_update (Some b) job_id u now = Inr (b', c)"
  shows "view_of b' job_id = apply_view u (view_of b job_id)"
  using field_job_update [OF assms(1) _ _ assms(2), of "''status''"]
    field_job_update [OF assms(1) _ _ assms(2), of "''result''"]
    field_job_update [OF assms(1) _ _ assms(2), of "''progress''"]
  by (simp add: view_of_def apply_view_def split: option.splits)

lemma view_worker_update:
  assumes "''job_id'' \<notin> dom u"
  shows "view_of (worker_update b job_id u now) job_id = apply_view u (view_of b job_id)"
proof (cases b)
  case (Memory m)
  obtain b' c where j: "job_update (Some (Memory m)) job_id u now = Inr (b', c)"
    using job_update_eq [OF assms] by blast
  from view_job_update [OF assms j] j Memory show ?thesis by simp
next
  case (RQ r)
  then show ?thesis
    by (simp add: view_of_def apply_view_def field_run_job_update split: option.splits)
qed

lemma apply_deleted_update:
  "apply_view (deleted_update msg) v
     = \<lparr>v_status = Some Deleted, v_result = JNone, v_progress = v_progress v\<rparr>"
  by (simp add: apply_view_def deleted_update_def parse_status_def)

lemma deleted_update_no_id: "''job_id'' \<notin> dom (deleted_update msg)"
  by (simp add: deleted_update_def)

subsection \<open>One step keeps the invariant\<close>

lemma delete_file_view:
  assumes "delete_file (Some b) job_id now = Inr b'"
  shows "v_result (view_of b job_id) \<noteq> JNone"
    and "view_of b' job_id = apply_view (deleted_update ''Fajl udalyon'') (view_of b job_id)"
proof -
  from assms obtain job where g: "get b job_id = Some job"
    and r: "dict_get job ''result'' \<noteq> JNone"
    and u: "\<exists>c. job_update (Some b) job_id (deleted_update ''Fajl udalyon'') now = Inr (b', c)"
    by (auto simp: delete_file_def job_status_def
        split: option.splits if_splits jval.splits sum.splits)
  from g r show "v_result (view_of b job_id) \<noteq> JNone"
    by (simp add: view_of_def field_or_none_def stored_field_def dict_get_def)
  from u obtain c where
    "job_update (Some b) job_id (deleted_update ''Fajl udalyon'') now = Inr (b', c)" ..
  from view_job_update [OF deleted_update_no_id this]
  show "view_of b' job_id = apply_view (deleted_update ''Fajl udalyon'') (view_of b job_id)" .
qed

lemma file_route_view:
  assumes "file_route (Some b) job_id = Inr path"
  shows "v_result (view_of b job_id) \<noteq> JNone"
proof -
  from assms obtain job where g: "get b job_id = Some job"
    and r: "dict_get job ''result'' \<noteq> JNone"
    by (auto simp: file_route_def job_status_def split: option.splits if_splits)
  then show ?thesis
    by (simp add: view_of_def field_or_none_def stored_field_def dict_get_def)
qed

lemma cleanup_view:
  "\<exists>b'. cleanup_after_download (Some b) job_id path now = Inr b'
         \<and> view_of b' job_id
             = apply_view (deleted_update ''Fajl udalyon posle skachivaniya'') (view_of b job_id)"
proof -
  obtain b' c where
    j: "job_update (Some b) job_id (deleted_update ''Fajl udalyon posle skachivaniya'') now
          = Inr (b', c)"
    using job_update_eq [OF deleted_update_no_id] by blast
  from view_job_update [OF deleted_update_no_id j] j show ?thesis
    by (simp add: cleanup_after_download_def)
qed

lemma stutter:
  "view_ok v \<Longrightarrow> status_change allowed v v \<and> progress_le v v"
  by (auto simp: view_ok_def status_change_def progress_le_def progress_in_range_def
      split: jval.splits)

lemma deleted_view_ok:
  "view_ok v \<Longrightarrow>
     view_ok \<lparr>v_status = Some Deleted, v_result = JNone, v_progress = v_progress v\<rparr>
     \<and> progress_le v \<lparr>v_status = Some Deleted, v_result = JNone, v_progress = v_progress v\<rparr>"
  by (auto simp: view_ok_def result_iff_done_def progress_le_def progress_in_range_def
      split: jval.splits)

lemma result_means_done:
  "view_ok v \<Longrightarrow> v_result v \<noteq> JNone \<Longrightarrow> v_status v = Some Done"
  by (simp add: view_ok_def result_iff_done_def)

lemma done_means_idle:
  assumes "invariant src nondecr job_id s" and "v_status (observe job_id s) = Some a"
    and "terminal a"
  shows "sys_pending s = []"
  using assms by (auto simp: invariant_def)

lemma step_invariant:
  assumes inv: "invariant src nondecr job_id s"
  shows "invariant src nondecr job_id (step job_id s ev)
         \<and> status_change (lifecycle_step src) (observe job_id s) (observe job_id (step job_id s ev))
         \<and> (nondecr \<longrightarrow> progress_le (observe job_id s) (observe job_id (step job_id s ev)))"
proof -
  let ?v = "observe job_id s"
  from inv have ok: "view_ok ?v" by (simp add: invariant_def)
  have same: ?thesis if "step job_id s ev = s"
    using that inv stutter [OF ok] by simp
  have deleted: ?thesis
    if o: "observe job_id (step job_id s ev)
           = \<lparr>v_status = Some Deleted, v_result = JNone, v_progress = v_progress ?v\<rparr>"
      and p: "sys_pending (step job_id s ev) = []"
      and st: "v_status ?v = Some Done \<or> v_status ?v = Some Deleted"
  proof -
    have "invariant src nondecr job_id (step job_id s ev)"
      using deleted_view_ok [OF ok] by (simp add: invariant_def o p)
    moreover have "status_change (lifecycle_step src) ?v (observe job_id (step job_id s ev))"
      using st by (auto simp: o status_change_def lifecycle_step_def path_step_def
          source_step_def)
    moreover have "progress_le ?v (observe job_id (step job_id s ev))"
      using deleted_view_ok [OF ok] by (simp add: o)
    ultimately show ?thesis by simp
  qed
  show ?thesis
  proof (cases ev)
    case (Worker now)
    show ?thesis
    proof (cases "sys_pending s")
      case Nil
      with Worker have "step job_id s ev = s" by simp
      then show ?thesis by (rule same)
    next
      case (Cons u us)
      from inv Cons have t: "trace_ok src nondecr ?v (u # us)"
        and idle: "sys_tasks s = []"
        by (simp_all add: invariant_def)
      from t have nid: "''job_id'' \<notin> dom u" by simp
      have o: "observe job_id (step job_id s ev) = apply_view u ?v"
        using view_worker_update [OF nid] by (simp add: Worker Cons observe_def)
      from t have
        c1: "status_change (lifecycle_step src) ?v (apply_view u ?v)" and
        c2: "view_ok (apply_view u ?v)" and
        c3: "nondecr \<longrightarrow> progress_le ?v (apply_view u ?v)" and
        c4: "(case v_status (apply_view u ?v) of Some a \<Rightarrow> terminal a | None \<Rightarrow> True)
               \<longrightarrow> us = []" and
        c5: "trace_ok src nondecr (apply_view u ?v) us"
        by simp_all
      have p: "sys_pending (step job_id s ev) = us" and
        k: "sys_tasks (step job_id s ev) = []"
        using idle by (simp_all add: Worker Cons)
      have "invariant src nondecr job_id (step job_id s ev)"
        unfolding invariant_def o p k using c2 c4 c5
        by (auto split: option.splits)
      with c1 c3 show ?thesis by (simp add: o)
    qed
  next
    case (DeleteFile now)
    show ?thesis
    proof (cases "delete_file (Some (sys_backend s)) job_id now")
      case (Inl exc)
      with DeleteFile have "step job_id s ev = s" by simp
      then show ?thesis by (rule same)
    next
      case (Inr b')
      from delete_file_view [OF Inr] have r: "v_result ?v \<noteq> JNone"
        and o': "view_of b' job_id = apply_view (deleted_update ''Fajl udalyon'') ?v"
        by (simp_all add: observe_def)
      from result_means_done [OF ok r] have d: "v_status ?v = Some Done" .
      have idle: "sys_pending s = []"
        by (rule done_means_idle [OF inv d]) (simp add: terminal_def)
      show ?thesis
      proof (rule deleted)
        show "observe job_id (step job_id s ev)
           = \<lparr>v_status = Some Deleted, v_result = JNone, v_progress = v_progress ?v\<rparr>"
          using o' by (simp add: DeleteFile Inr observe_def apply_deleted_update)
        show "sys_pending (step job_id s ev) = []"
          using idle by (simp add: DeleteFile Inr)
        show "v_status ?v = Some Done \<or> v_status ?v = Some Deleted" using d by simp
      qed
    qed
  next
    case GetFile
    show ?thesis
    proof (cases "file_route (Some (sys_backend s)) job_id")
      case (Inl exc)
      with GetFile have "step job_id s ev = s" by simp
      then show ?thesis by (rule same)
    next
      case (Inr path)
      from file_route_view [OF Inr] have r: "v_result ?v \<noteq> JNone"
        by (simp add: observe_def)
      from result_means_done [OF ok r] have d: "v_status ?v = Some Done" .
      have idle: "sys_pending s = []"
        by (rule done_means_idle [OF inv d]) (simp add: terminal_def)
      have o: "observe job_id (step job_id s ev) = ?v"
        by (simp add: GetFile Inr observe_def)
      have "invariant src nondecr job_id (step job_id s ev)"
        using inv idle d unfolding invariant_def o
        by (simp add: GetFile Inr)
      with stutter [OF ok] show ?thesis by (simp add: o)
    qed
  next
    case (Cleanup now)
    show ?thesis
    proof (cases "sys_tasks s")
      case Nil
      with Cleanup have "step job_id s ev = s" by simp
      then show ?thesis by (rule same)
    next
      case (Cons path tasks)
      from inv Cons have st: "v_status ?v = Some Done \<or> v_status ?v = Some Deleted"
        and idle: "sys_pending s = []"
        by (auto simp: invariant_def)
      obtain b' where c: "cleanup_after_download (Some (sys_backend s)) job_id path now = Inr b'"
        and o': "view_of b' job_id
             = apply_view (deleted_update ''Fajl udalyon posle skachivaniya'') ?v"
        using cleanup_view [of "sys_backend s" job_id path now]
        by (auto simp: observe_def)
      show ?thesis
      proof (rule deleted)
        show "observe job_id (step job_id s ev)
           = \<lparr>v_status = Some Deleted, v_result = JNone, v_progress = v_progress ?v\<rparr>"
          using o' by (simp add: Cleanup Cons c observe_def apply_deleted_update)
        show "sys_pending (step job_id s ev) = []"
          using idle by (simp add: Cleanup Cons c)
        show "v_status ?v = Some Done \<or> v_status ?v = Some Deleted" by (rule st)
      qed
    qed
  qed
qed

lemma run_snoc: "run job_id s (schedule @ [ev]) = step job_id (run job_id s schedule) ev"
  by (simp add: run_def)

lemma run_invariant:
  "invariant src nondecr job_id s \<Longrightarrow> invariant src nondecr job_id (run job_id s schedule)"
proof (induction schedule rule: rev_induct)
  case Nil
  then show ?case by (simp add: run_def)
next
  case (snoc ev schedule)
  then show ?case using step_invariant by (simp add: run_snoc)
qed

subsection \<open>The updates of the pipeline\<close>

lemma hook_percent_range: "hook_percent d = Some q \<Longrightarrow> 20 \<le> q \<and> q \<le> 90"
  by (auto simp: hook_percent_def Let_def split: if_splits)

lemma trace_ok_error:
  assumes "v_status v = Some a" and "\<not> terminal a" and "src \<longrightarrow> a \<noteq> Converting"
    and "v_result v = JNone"
    and "progress_in_range v"
    and "u ''status'' = Some (JStr ''error'')" and "u ''result'' = None"
    and "u ''progress'' = None" and "''job_id'' \<notin> dom u"
  shows "trace_ok src nondecr v [u]"
proof -
  have "source_step a Error" if "src"
    using that assms(2,3) by (cases a) (simp_all add: source_step_def terminal_def)
  thus ?thesis
    using assms
    by (auto simp: apply_view_def status_change_def lifecycle_step_def path_step_def
        view_ok_def result_iff_done_def progress_in_range_def progress_le_def parse_status_def
        split: jval.splits)
qed

lemma error_update_fields:
  "error_update msg ''status'' = Some (JStr ''error'')" "error_update msg ''result'' = None"
  "error_update msg ''progress'' = None" "''job_id'' \<notin> dom (error_update msg)"
  "unsupported_update w ''status'' = Some (JStr ''error'')"
  "unsupported_update w ''result'' = None"
  "unsupported_update w ''progress'' = None" "''job_id'' \<notin> dom (unsupported_update w)"
  by (simp_all add: error_update_def unsupported_update_def)

lemma trace_ok_done:
  assumes "(\<not> src \<and> v_status v = Some Converting)
           \<or> (src \<and> v_status v = Some Downloading)"
    and "v_progress v = JNum p" and "p \<le> 100"
  shows "trace_ok src nondecr v [done_update e final_path meta]"
  using assms
  by (auto simp: done_update_def Let_def apply_view_def status_change_def lifecycle_step_def
      path_step_def source_step_def view_ok_def result_iff_done_def progress_in_range_def
      progress_le_def parse_status_def)

lemma trace_ok_convert:
  assumes "0 \<le> p" and "p \<le> 90"
  shows "trace_ok (want = ''source'') nondecr
           \<lparr>v_status = Some Downloading, v_result = JNone, v_progress = JNum p\<rparr>
           (convert_stage e want source_path meta)"
proof (cases "want = ''source''")
  case True
  have "trace_ok True nondecr
           \<lparr>v_status = Some Downloading, v_result = JNone, v_progress = JNum p\<rparr>
           [done_update e source_path meta]"
    using assms by (intro trace_ok_done [where p=p]) simp_all
  with True show ?thesis by (simp add: convert_stage_def)
next
  case False
  show ?thesis
  proof (cases "want \<in> ALLOWED_FORMATS")
    case True
    define c :: real where "c = (if want \<in> {''mp4'', ''webm'', ''mkv''} then 95 else 92)"
    define u where "u = [''status'' \<mapsto> JStr ''converting'',
         ''message'' \<mapsto> JStr (''Konvertaciya v '' @ upper want @ ''...''),
         ''progress'' \<mapsto> JNum c]"
    define v1 where "v1 = \<lparr>v_status = Some Converting, v_result = JNone, v_progress = JNum c\<rparr>"
    have c: "92 \<le> c" "c \<le> 95" by (simp_all add: c_def)
    have a: "apply_view u \<lparr>v_status = Some Downloading, v_result = JNone, v_progress = JNum p\<rparr>
        = v1"
      by (simp add: apply_view_def u_def v1_def parse_status_def)
    have rest: "trace_ok False nondecr v1
        (case convert_outcome e of
           Inl exc \<Rightarrow> [error_update exc]
         | Inr final_path \<Rightarrow> [done_update e final_path meta])"
    proof (cases "convert_outcome e")
      case (Inl exc)
      have "trace_ok False nondecr v1 [error_update exc]"
        using c by (intro trace_ok_error [where a=Converting])
          (simp_all add: v1_def terminal_def progress_in_range_def error_update_fields)
      with Inl show ?thesis by simp
    next
      case (Inr final_path)
      have "trace_ok False nondecr v1 [done_update e final_path meta]"
        using c by (intro trace_ok_done [where p=c]) (simp_all add: v1_def)
      with Inr show ?thesis by simp
    qed
    have first: "''job_id'' \<notin> dom u"
      "status_change (lifecycle_step False)
         \<lparr>v_status = Some Downloading, v_result = JNone, v_progress = JNum p\<rparr> v1"
      "view_ok v1"
      "progress_le \<lparr>v_status = Some Downloading, v_result = JNone, v_progress = JNum p\<rparr> v1"
      "\<not> (case v_status v1 of Some a \<Rightarrow> terminal a | None \<Rightarrow> True)"
      using assms c
      by (simp_all add: u_def v1_def status_change_def lifecycle_step_def path_step_def
          view_ok_def result_iff_done_def progress_in_range_def progress_le_def terminal_def)
    have "convert_stage e want source_path meta
        = u # (case convert_outcome e of
                 Inl exc \<Rightarrow> [error_update exc]
               | Inr final_path \<Rightarrow> [done_update e final_path meta])"
      using True \<open>want \<noteq> ''source''\<close> by (simp add: convert_stage_def u_def c_def)
    with first rest a \<open>want \<noteq> ''source''\<close> show ?thesis by simp
  next
    case False
    have "trace_ok False nondecr
           \<lparr>v_status = Some Downloading, v_result = JNone, v_progress = JNum p\<rparr>
           [unsupported_update want]"
      using assms by (intro trace_ok_error [where a=Downloading])
        (simp_all add: terminal_def progress_in_range_def error_update_fields)
    with False \<open>want \<noteq> ''source''\<close> show ?thesis by (simp add: convert_stage_def)
  qed
qed

lemma trace_ok_hooks:
  assumes "15 \<le> p" and "p \<le> 90"
    and "nondecr \<longrightarrow> sorted (p # List.map_filter hook_percent hs)"
    and "\<And>q. 15 \<le> q \<Longrightarrow> q \<le> 90 \<Longrightarrow>
           trace_ok src nondecr
             \<lparr>v_status = Some Downloading, v_result = JNone, v_progress = JNum (real_of_int q)\<rparr>
             rest"
  shows "trace_ok src nondecr
           \<lparr>v_status = Some Downloading, v_result = JNone, v_progress = JNum (real_of_int p)\<rparr>
           (List.map_filter hook hs @ rest)"
  using assms(1-3)
proof (induction hs arbitrary: p)
  case Nil
  with assms(4) show ?case by (simp add: map_filter_simps)
next
  case (Cons d hs)
  show ?case
  proof (cases "hook_percent d")
    case None
    then have "hook d = None" by (simp add: hook_def)
    with None Cons show ?thesis by (simp add: map_filter_simps)
  next
    case (Some q)
    from hook_percent_range [OF Some] have q: "20 \<le> q" "q \<le> 90" by simp_all
    have s: "nondecr \<longrightarrow> sorted (q # List.map_filter hook_percent hs)"
      and m: "nondecr \<longrightarrow> p \<le> q"
      using Cons.prems(3) Some by (auto simp: map_filter_simps)
    from q have "15 \<le> q" by simp
    from Cons.IH [OF this q(2) s] have
      "trace_ok src nondecr
         \<lparr>v_status = Some Downloading, v_result = JNone, v_progress = JNum (real_of_int q)\<rparr>
         (List.map_filter hook hs @ rest)" .
    moreover from Some have "hook d = Some [''progress'' \<mapsto> JNum (real_of_int q)]"
      by (simp add: hook_def)
    ultimately show ?thesis
      using q m Cons.prems(1,2)
      by (simp add: map_filter_simps apply_view_def status_change_def view_ok_def
          result_iff_done_def progress_in_range_def progress_le_def terminal_def)
  qed
qed

lemma hook_percents_from_15:
  "sorted (hook_percents e) \<Longrightarrow> sorted (15 # hook_percents e)"
proof -
  assume s: "sorted (hook_percents e)"
  have "\<forall>q\<in>set (hook_percents e). 15 \<le> q"
  proof
    fix q assume "q \<in> set (hook_percents e)"
    then obtain d where "hook_percent d = Some q"
      by (auto simp: hook_percents_def List.map_filter_def)
    from hook_percent_range [OF this] show "15 \<le> q" by simp
  qed
  with s show ?thesis by simp
qed

lemma trace_ok_download:
  assumes "nondecr \<longrightarrow> sorted (hook_percents e)"
  shows "trace_ok (want = ''source'') nondecr
           \<lparr>v_status = Some Fetching, v_result = JNone, v_progress = JNum 5\<rparr>
           (download_stage e want meta)"
proof -
  let ?src = "want = ''source''"
  define rest where "rest = (case download_outcome e of
          Inl exc \<Rightarrow> [error_update exc]
        | Inr source_path \<Rightarrow>
            (case size_outcome e of
               Inl exc \<Rightarrow> [error_update exc]
             | Inr size_mb \<Rightarrow>
                 if size_mb \<noteq> 0 \<and> size_mb > real_of_int (max_file_size_mb e)
                 then [error_update ''Razmer fajla prevyshaet limit.'']
                 else convert_stage e want source_path meta))"
  define u where "u = [''status'' \<mapsto> JStr ''downloading'',
      ''message'' \<mapsto> JStr ''Skachivayu mediakontent...'',
      ''progress'' \<mapsto> JNum 15]"
  let ?d = "\<lambda>q. \<lparr>v_status = Some Downloading, v_result = JNone,
      v_progress = JNum (real_of_int q)\<rparr>"
  have r: "trace_ok ?src nondecr (?d q) rest" if q: "15 \<le> q" "q \<le> 90" for q
  proof -
    have err: "trace_ok ?src nondecr (?d q) [error_update msg]" for msg
      using q by (intro trace_ok_error [where a=Downloading])
        (simp_all add: terminal_def progress_in_range_def error_update_fields)
    have conv: "trace_ok ?src nondecr (?d q) (convert_stage e want source_path meta)"
      for source_path
      using q by (intro trace_ok_convert) simp_all
    show ?thesis
      unfolding rest_def using err conv by (simp split: sum.splits)
  qed
  have "nondecr \<longrightarrow> sorted (15 # List.map_filter hook_percent (hook_calls e))"
    using assms hook_percents_from_15 [of e] by (simp add: hook_percents_def)
  from trace_ok_hooks [where p=15 and hs="hook_calls e" and rest=rest, OF _ _ this r]
  have h: "trace_ok ?src nondecr (?d 15) (List.map_filter hook (hook_calls e) @ rest)"
    by simp
  have a: "apply_view u \<lparr>v_status = Some Fetching, v_result = JNone, v_progress = JNum 5\<rparr>
      = ?d 15"
    by (simp add: apply_view_def u_def parse_status_def)
  have first: "''job_id'' \<notin> dom u"
    "status_change (lifecycle_step ?src)
       \<lparr>v_status = Some Fetching, v_result = JNone, v_progress = JNum 5\<rparr> (?d 15)"
    "view_ok (?d 15)"
    "progress_le \<lparr>v_status = Some Fetching, v_result = JNone, v_progress = JNum 5\<rparr> (?d 15)"
    "\<not> (case v_status (?d 15) of Some a \<Rightarrow> terminal a | None \<Rightarrow> True)"
    by (simp_all add: u_def status_change_def lifecycle_step_def path_step_def source_step_def
        view_ok_def result_iff_done_def progress_in_range_def progress_le_def terminal_def)
  have "download_stage e want meta = u # List.map_filter hook (hook_calls e) @ rest"
    by (simp add: download_stage_def u_def rest_def)
  with first h a show ?thesis by simp
qed

lemma trace_ok_probe:
  assumes "nondecr \<longrightarrow> sorted (hook_percents e)"
  shows "trace_ok (want = ''source'') nondecr
           \<lparr>v_status = Some Queued, v_result = JNone, v_progress = JNum 0\<rparr>
           (probe_stage e want)"
proof -
  let ?src = "want = ''source''"
  let ?f = "\<lparr>v_status = Some Fetching, v_result = JNone, v_progress = JNum 5\<rparr>"
  define u where "u = [''status'' \<mapsto> JStr ''fetching'',
      ''message'' \<mapsto> JStr ''Poluchayu metadannye'',
      ''progress'' \<mapsto> JNum 5]"
  define rest where "rest = (case probe_outcome e of
          Inl exc \<Rightarrow> [error_update exc]
        | Inr meta \<Rightarrow>
            [''meta'' \<mapsto> meta_dict meta]
            # (if (case estimated_size_mb meta of
                     None \<Rightarrow> False
                   | Some est \<Rightarrow> est > real_of_int (max_file_size_mb e))
               then [error_update ''Ocenochnyj razmer prevyshaet limit.'']
               else download_stage e want (meta_dict meta)))"
  have err: "trace_ok ?src nondecr ?f [error_update msg]" for msg
    by (intro trace_ok_error [where a=Fetching])
      (simp_all add: terminal_def progress_in_range_def error_update_fields)
  have r: "trace_ok ?src nondecr ?f rest"
  proof (cases "probe_outcome e")
    case (Inl exc)
    with err show ?thesis by (simp add: rest_def)
  next
    case (Inr meta)
    have m: "apply_view [''meta'' \<mapsto> meta_dict meta] ?f = ?f"
      by (simp add: apply_view_def)
    have keep: "status_change (lifecycle_step ?src) ?f ?f" "view_ok ?f" "progress_le ?f ?f"
      "\<not> (case v_status ?f of Some a \<Rightarrow> terminal a | None \<Rightarrow> True)"
      by (simp_all add: status_change_def view_ok_def result_iff_done_def
          progress_in_range_def progress_le_def terminal_def)
    have "trace_ok ?src nondecr ?f
        (if (case estimated_size_mb meta of
               None \<Rightarrow> False
             | Some est \<Rightarrow> est > real_of_int (max_file_size_mb e))
         then [error_update ''Ocenochnyj razmer prevyshaet limit.'']
         else download_stage e want (meta_dict meta))"
      using err trace_ok_download [OF assms] by simp
    with m keep Inr show ?thesis by (simp add: rest_def)
  qed
  have a: "apply_view u \<lparr>v_status = Some Queued, v_result = JNone, v_progress = JNum 0\<rparr> = ?f"
    by (simp add: apply_view_def u_def parse_status_def)
  have first: "''job_id'' \<notin> dom u"
    "status_change (lifecycle_step ?src)
       \<lparr>v_status = Some Queued, v_result = JNone, v_progress = JNum 0\<rparr> ?f"
    "view_ok ?f"
    "progress_le \<lparr>v_status = Some Queued, v_result = JNone, v_progress = JNum 0\<rparr> ?f"
    "\<not> (case v_status ?f of Some a \<Rightarrow> terminal a | None \<Rightarrow> True)"
    by (simp_all add: u_def status_change_def lifecycle_step_def path_step_def source_step_def
        view_ok_def result_iff_done_def progress_in_range_def progress_le_def terminal_def)
  have "probe_stage e want = u # rest"
    by (simp add: probe_stage_def u_def rest_def)
  with first r a show ?thesis by simp
qed

lemma trace_ok_process:
  assumes "nondecr \<longrightarrow> sorted (hook_percents e)"
  shows "trace_ok (wants_source (JDict payload)) nondecr
           \<lparr>v_status = Some Queued, v_result = JNone, v_progress = JNum 0\<rparr>
           (issued catch (process_job_async job_id payload e))"
proof -
  let ?v0 = "\<lparr>v_status = Some Queued, v_result = JNone, v_progress = JNum 0\<rparr>"
  let ?src = "wants_source (JDict payload)"
  let ?w = "py_or (dget payload ''want'') (py_or (dget payload ''format'') (JStr ''mp4''))"
  have err: "trace_ok ?src nondecr ?v0 [u]"
    if "u ''status'' = Some (JStr ''error'')" "u ''result'' = None" "u ''progress'' = None"
      "''job_id'' \<notin> dom u" for u
    using that by (intro trace_ok_error [where a=Queued])
      (simp_all add: terminal_def progress_in_range_def)
  have esc: "trace_ok ?src nondecr ?v0 (issued catch ([], Some exc))" for exc
    using err [of "error_update (str_error exc)"]
    by (simp add: issued_def error_update_fields)
  show ?thesis
  proof (cases "truthy (dget payload ''url'')")
    case False
    have "trace_ok ?src nondecr ?v0
        [[''status'' \<mapsto> JStr ''error'', ''message'' \<mapsto> JStr ''URL otsutstvuet.'',
          ''error'' \<mapsto> JStr ''missing_url'']]"
      by (rule err) simp_all
    with False show ?thesis by (simp add: process_job_async_def issued_def)
  next
    case url: True
    show ?thesis
    proof (cases "\<exists>w. ?w = JStr w")
      case False
      then have "process_job_async job_id payload e
          = ([], Some (AttributeError ''object has no attribute lower''))"
        using url by (auto simp: process_job_async_def split: jval.splits)
      with esc show ?thesis by simp
    next
      case True
      then obtain w where w: "?w = JStr w" ..
      then have src: "?src = (lower w = ''source'')" by (simp add: wants_source_def)
      show ?thesis
      proof (cases "lower w \<in> ALLOWED_FORMATS")
        case False
        with url w have "process_job_async job_id payload e
            = ([unsupported_update (lower w)], None)"
          by (simp add: process_job_async_def Let_def)
        with err [of "unsupported_update (lower w)"] show ?thesis
          by (simp add: issued_def error_update_fields)
      next
        case ok: True
        show ?thesis
        proof (cases "quality_to_height
                     (case map_of payload ''quality'' of
                        None \<Rightarrow> JStr DEFAULT_QUALITY | Some q \<Rightarrow> q)")
          case (Inl exc)
          with url w ok have "process_job_async job_id payload e = ([], Some exc)"
            by (simp add: process_job_async_def Let_def)
          with esc show ?thesis by simp
        next
          case (Inr h)
          with url w ok have "process_job_async job_id payload e
              = (probe_stage e (lower w), None)"
            by (simp add: process_job_async_def Let_def)
          with trace_ok_probe [OF assms, of "lower w"] src show ?thesis
            by (simp add: issued_def)
        qed
      qed
    qed
  qed
qed

lemma wants_source_falsy: "\<not> wants_source (JDict [])"
  by (simp add: wants_source_def dget_def py_or_def lower_def)

lemma trace_ok_pipeline:
  assumes "nondecr \<longrightarrow> sorted (hook_percents e)"
  shows "trace_ok (wants_source (dict_get job ''payload'')) nondecr
           \<lparr>v_status = Some Queued, v_result = JNone, v_progress = JNum 0\<rparr>
           (issued catch (pipeline_of job_id job e))"
proof (cases "\<exists>p. dict_get job ''payload'' = JDict p")
  case True
  then obtain p where p: "dict_get job ''payload'' = JDict p" ..
  with trace_ok_process [OF assms, of p catch job_id] show ?thesis
    by (simp add: pipeline_of_def)
next
  case False
  then have ns: "\<not> wants_source (dict_get job ''payload'')"
    by (auto simp: wants_source_def split: jval.splits)
  show ?thesis
  proof (cases "truthy (dict_get job ''payload'')")
    case True
    with False have "pipeline_of job_id job e
        = ([], Some (AttributeError ''object has no attribute get''))"
      by (auto simp: pipeline_of_def split: jval.splits)
    moreover have "trace_ok False nondecr
        \<lparr>v_status = Some Queued, v_result = JNone, v_progress = JNum 0\<rparr>
        [error_update msg]" for msg
      by (intro trace_ok_error [where a=Queued])
        (simp_all add: terminal_def progress_in_range_def error_update_fields)
    ultimately show ?thesis using ns by (simp add: issued_def)
  next
    case falsy: False
    with False have "pipeline_of job_id job e = process_job_async job_id [] e"
      by (auto simp: pipeline_of_def split: jval.splits)
    with trace_ok_process [OF assms, of "[]" catch job_id] ns wants_source_falsy
    show ?thesis by simp
  qed
qed

subsection \<open>Submission\<close>

lemma initial_record_nonempty: "initial_record job_id payload now \<noteq> Map.empty"
proof
  assume "initial_record job_id payload now = Map.empty"
  then have "initial_record job_id payload now ''status'' = None" by simp
  then show False by (simp add: initial_record_def)
qed

lemma get_enqueue:
  "get (fst (enqueue b job_id payload now)) job_id = Some (initial_record job_id payload now)"
  using initial_record_nonempty [of job_id payload now]
  by (cases b) (simp_all add: MemoryBackend_enqueue_def MemoryBackend_get_def
      RQBackend_enqueue_def RQBackend_get_def)

lemma view_enqueue:
  "view_of (fst (enqueue b job_id payload now)) job_id
     = \<lparr>v_status = Some Queued, v_result = JNone, v_progress = JNum 0\<rparr>"
  by (simp add: view_of_def field_or_none_def stored_field_def get_enqueue
      initial_record_def parse_status_def)

lemma worker_updates_enqueue:
  "\<exists>catch. worker_updates (fst (enqueue b job_id payload now)) job_id e
     = issued catch (pipeline_of job_id (initial_record job_id payload now) e)"
proof (cases b)
  case (Memory m)
  have "get (fst (enqueue (Memory m) job_id payload now)) job_id
      = Some (initial_record job_id payload now)"
    by (rule get_enqueue)
  then have "worker_updates (fst (enqueue (Memory m) job_id payload now)) job_id e
     = issued True (pipeline_of job_id (initial_record job_id payload now) e)"
    using initial_record_nonempty [of job_id payload now]
    by (simp add: MemoryBackend_enqueue_def start_worker_def job_status_def issued_def
        split: prod.splits option.splits)
  with Memory show ?thesis by blast
next
  case (RQ r)
  have "get (fst (enqueue (RQ r) job_id payload now)) job_id
      = Some (initial_record job_id payload now)"
    by (rule get_enqueue)
  then have "worker_updates (fst (enqueue (RQ r) job_id payload now)) job_id e
     = issued False (pipeline_of job_id (initial_record job_id payload now) e)"
    using initial_record_nonempty [of job_id payload now]
    by (simp add: RQBackend_enqueue_def run_job_def issued_def
        split: prod.splits option.splits)
  with RQ show ?thesis by blast
qed

lemma submit_invariant:
  assumes "nondecr \<longrightarrow> sorted (hook_percents e)"
  shows "invariant (wants_source payload) nondecr job_id (submit b job_id payload now e)"
proof -
  let ?b = "fst (enqueue b job_id payload now)"
  let ?v0 = "\<lparr>v_status = Some Queued, v_result = JNone, v_progress = JNum 0\<rparr>"
  have s: "submit b job_id payload now e
      = \<lparr>sys_backend = ?b, sys_pending = worker_updates ?b job_id e, sys_tasks = []\<rparr>"
    by (simp add: submit_def split: prod.splits)
  obtain catch where w: "worker_updates ?b job_id e
     = issued catch (pipeline_of job_id (initial_record job_id payload now) e)"
    using worker_updates_enqueue by blast
  have p: "dict_get (initial_record job_id payload now) ''payload'' = payload"
    by (simp add: dict_get_def initial_record_def)
  have t: "trace_ok (wants_source payload) nondecr ?v0 (worker_updates ?b job_id e)"
    using trace_ok_pipeline [OF assms, of "initial_record job_id payload now" catch job_id]
    by (simp add: w p)
  have ok: "view_ok ?v0"
    by (simp add: view_ok_def result_iff_done_def progress_in_range_def)
  show ?thesis
    using t ok by (simp add: invariant_def s observe_def view_enqueue terminal_def)
qed

lemma reachable_invariant:
  assumes "nondecr \<longrightarrow> sorted (hook_percents e)"
  shows "invariant (wants_source payload) nondecr job_id
           (run job_id (submit b job_id payload now e) schedule)"
  by (rule run_invariant [OF submit_invariant [OF assms]])

lemma reachable_step:
  assumes "nondecr \<longrightarrow> sorted (hook_percents e)"
  shows "status_change (lifecycle_step (wants_source payload))
           (observe job_id (run job_id (submit b job_id payload now e) schedule))
           (observe job_id (run job_id (submit b job_id payload now e) (schedule @ [ev])))
         \<and> (nondecr \<longrightarrow> progress_le
           (observe job_id (run job_id (submit b job_id payload now e) schedule))
           (observe job_id (run job_id (submit b job_id payload now e) (schedule @ [ev]))))"
  using step_invariant [OF reachable_invariant [OF assms], of payload job_id b now schedule ev]
  by (simp add: run_snoc)

lemma lifecycle_step_no_source: "lifecycle_step False a b = path_step a b"
  by (simp add: lifecycle_step_def)

lemma submit_fst:
  "submit b job_id payload now e
     = \<lparr>sys_backend = fst (enqueue b job_id payload now),
        sys_pending = worker_updates (fst (enqueue b job_id payload now)) job_id e,
        sys_tasks = []\<rparr>"
  by (simp add: submit_def split: prod.splits)

lemma submit_observe:
  "observe job_id (submit b job_id payload now e)
     = \<lparr>v_status = Some Queued, v_result = JNone, v_progress = JNum 0\<rparr>"
  unfolding submit_fst observe_def
  by (simp only: system.select_convs view_enqueue)

lemma source_never_converting:
  assumes "wants_source payload"
  shows "v_status (observe job_id (run job_id (submit b job_id payload now e) schedule))
           \<noteq> Some Converting"
proof (induction schedule rule: rev_induct)
  case Nil
  show ?case by (simp add: run_def submit_observe)
next
  case (snoc ev schedule)
  have "status_change (lifecycle_step True)
           (observe job_id (run job_id (submit b job_id payload now e) schedule))
           (observe job_id (run job_id (submit b job_id payload now e) (schedule @ [ev])))"
    using reachable_step [of False e payload job_id b now schedule ev] assms by simp
  with snoc show ?case
    by (auto simp: status_change_def lifecycle_step_def source_step_def split: option.splits)
qed

subsection \<open>Example runs\<close>

lemma run_workers:
  assumes "sys_pending s = us @ rest" and "\<forall>u\<in>set us. ''job_id'' \<notin> dom u"
    and "length ts = length us"
  shows "observe job_id (run job_id s (map Worker ts)) = fold apply_view us (observe job_id s)
         \<and> sys_pending (run job_id s (map Worker ts)) = rest
         \<and> sys_tasks (run job_id s (map Worker ts)) = sys_tasks s"
  using assms
proof (induction us arbitrary: s ts)
  case Nil
  then show ?case by (simp add: run_def)
next
  case (Cons u us)
  from Cons.prems(3) obtain t ts' where ts: "ts = t # ts'" and l: "length ts' = length us"
    by (cases ts) auto
  let ?s = "step job_id s (Worker t)"
  from Cons.prems(1,2) have
    o: "observe job_id ?s = apply_view u (observe job_id s)" and
    p: "sys_pending ?s = us @ rest" and k: "sys_tasks ?s = sys_tasks s"
    using view_worker_update [of u "sys_backend s" job_id t]
    by (simp_all add: observe_def)
  from Cons.prems(2) have "\<forall>u\<in>set us. ''job_id'' \<notin> dom u" by simp
  from Cons.IH [OF p this l] o k show ?case
    by (simp add: ts run_def)
qed

lemma example_pending:
  "sys_pending (example_system ''source'' hooks)
     = [[''status'' \<mapsto> JStr ''fetching'', ''message'' \<mapsto> JStr ''Poluchayu metadannye'',
         ''progress'' \<mapsto> JNum 5],
        [''meta'' \<mapsto> meta_dict \<lparr>title = JStr ''clip'', duration = JNum 10, thumbnail = JNone,
                           estimated_size_mb = Some 2\<rparr>],
        [''status'' \<mapsto> JStr ''downloading'', ''message'' \<mapsto> JStr ''Skachivayu mediakontent...'',
         ''progress'' \<mapsto> JNum 15]]
       @ List.map_filter hook hooks
       @ [done_update (example_env hooks) ''temp/j1/clip.mp4''
            (meta_dict \<lparr>title = JStr ''clip'', duration = JNum 10, thumbnail = JNone,
                           estimated_size_mb = Some 2\<rparr>)]"
  by (simp add: example_system_def example_payload_def example_env_def submit_def
      MemoryBackend_enqueue_def start_worker_def job_status_def MemoryBackend_get_def
      initial_record_def pipeline_of_def dict_get_def process_job_async_def dget_def
      py_or_def lower_def ALLOWED_FORMATS_def quality_to_height_def QUALITY_PRESETS_def
      probe_stage_def download_stage_def convert_stage_def)

lemma example_observe:
  "observe ''j1'' (example_system fmt hooks)
     = \<lparr>v_status = Some Queued, v_result = JNone, v_progress = JNum 0\<rparr>"
  "sys_tasks (example_system fmt hooks) = []"
  unfolding example_system_def submit_fst observe_def
  by (simp_all only: system.select_convs view_enqueue)

lemma apply_done_update:
  "apply_view (done_update e final_path meta) v
     = \<lparr>v_status = Some Done,
        v_result = JDict [(''file_path'', JStr final_path),
                          (''filename'', JStr (path_name e final_path)),
                          (''mimetype'', JStr (guess_mimetype (path_suffix e final_path))),
                          (''meta'', meta)],
        v_progress = JNum 100\<rparr>"
  by (simp add: apply_view_def done_update_def Let_def parse_status_def)

lemma done_update_no_id: "''job_id'' \<notin> dom (done_update e final_path meta)"
  by (simp add: done_update_def Let_def)

text \<open>The example with no progress callback, after three and after four updates of the
  worker and after the deletion of the file.\<close>

lemma example_source_3:
  "observe ''j1'' (run ''j1'' (example_system ''source'' []) [Worker 1, Worker 2, Worker 3])
     = \<lparr>v_status = Some Downloading, v_result = JNone, v_progress = JNum 15\<rparr>"
proof -
  have "observe ''j1'' (run ''j1'' (example_system ''source'' []) (map Worker [1, 2, 3]))
      = fold apply_view
          [[''status'' \<mapsto> JStr ''fetching'', ''message'' \<mapsto> JStr ''Poluchayu metadannye'',
            ''progress'' \<mapsto> JNum 5],
           [''meta'' \<mapsto> meta_dict \<lparr>title = JStr ''clip'', duration = JNum 10,
               thumbnail = JNone, estimated_size_mb = Some 2\<rparr>],
           [''status'' \<mapsto> JStr ''downloading'',
            ''message'' \<mapsto> JStr ''Skachivayu mediakontent...'', ''progress'' \<mapsto> JNum 15]]
          (observe ''j1'' (example_system ''source'' []))"
    by (rule run_workers [THEN conjunct1]) (simp_all add: example_pending)
  then show ?thesis
    by (simp add: example_observe apply_view_def parse_status_def)
qed

lemma delete_step_observe:
  assumes "v_result (observe job_id s) = JDict res" and "map_of res ''file_path'' = Some p"
  shows "observe job_id (step job_id s (DeleteFile now))
     = \<lparr>v_status = Some Deleted, v_result = JNone, v_progress = v_progress (observe job_id s)\<rparr>"
proof -
  let ?b = "sys_backend s"
  from assms(1) have "stored_field ?b job_id ''result'' = Some (JDict res)"
    by (simp add: observe_def view_of_def field_or_none_def split: option.splits)
  then obtain job where g: "get ?b job_id = Some job"
    and r: "job ''result'' = Some (JDict res)"
    by (auto simp: stored_field_def split: option.splits)
  from r have ne: "job \<noteq> Map.empty" by auto
  obtain b' c where
    u: "job_update (Some ?b) job_id (deleted_update ''Fajl udalyon'') now = Inr (b', c)"
    using job_update_eq [OF deleted_update_no_id] by blast
  from g r ne u assms(2) have d: "delete_file (Some ?b) job_id now = Inr b'"
    by (simp add: delete_file_def job_status_def dict_get_def)
  from delete_file_view(2) [OF d] d show ?thesis
    by (simp add: observe_def apply_deleted_update)
qed

lemma example_source_done:
  "observe ''j1'' (run ''j1'' (example_system ''source'' [])
       [Worker 1, Worker 2, Worker 3, Worker 4])
     = \<lparr>v_status = Some Done,
        v_result = JDict [(''file_path'', JStr ''temp/j1/clip.mp4''),
                          (''filename'', JStr ''clip''),
                          (''mimetype'', JStr ''video/mp4''),
                          (''meta'', meta_dict \<lparr>title = JStr ''clip'', duration = JNum 10,
                              thumbnail = JNone, estimated_size_mb = Some 2\<rparr>)],
        v_progress = JNum 100\<rparr>"
proof -
  have "observe ''j1'' (run ''j1'' (example_system ''source'' []) (map Worker [1, 2, 3, 4]))
      = fold apply_view
          [[''status'' \<mapsto> JStr ''fetching'', ''message'' \<mapsto> JStr ''Poluchayu metadannye'',
            ''progress'' \<mapsto> JNum 5],
           [''meta'' \<mapsto> meta_dict \<lparr>title = JStr ''clip'', duration = JNum 10,
               thumbnail = JNone, estimated_size_mb = Some 2\<rparr>],
           [''status'' \<mapsto> JStr ''downloading'',
            ''message'' \<mapsto> JStr ''Skachivayu mediakontent...'', ''progress'' \<mapsto> JNum 15],
           done_update (example_env []) ''temp/j1/clip.mp4''
            (meta_dict \<lparr>title = JStr ''clip'', duration = JNum 10, thumbnail = JNone,
                           estimated_size_mb = Some 2\<rparr>)]
          (observe ''j1'' (example_system ''source'' []))"
    by (rule run_workers [where rest="[]", THEN conjunct1])
      (simp_all add: example_pending done_update_no_id)
  then show ?thesis
    by (simp add: apply_done_update example_env_def guess_mimetype_def lower_def)
qed

lemma example_source_deleted:
  "observe ''j1'' (run ''j1'' (example_system ''source'' [])
       [Worker 1, Worker 2, Worker 3, Worker 4, DeleteFile 5])
     = \<lparr>v_status = Some Deleted, v_result = JNone, v_progress = JNum 100\<rparr>"
proof -
  have "run ''j1'' (example_system ''source'' [])
       [Worker 1, Worker 2, Worker 3, Worker 4, DeleteFile 5]
      = step ''j1'' (run ''j1'' (example_system ''source'' [])
          [Worker 1, Worker 2, Worker 3, Worker 4]) (DeleteFile 5)"
    using run_snoc [of "''j1''" "example_system ''source'' []"
        "[Worker 1, Worker 2, Worker 3, Worker 4]" "DeleteFile 5"]
    by simp
  then show ?thesis
    using delete_step_observe [of "''j1''"
        "run ''j1'' (example_system ''source'' []) [Worker 1, Worker 2, Worker 3, Worker 4]"
        _ "JStr ''temp/j1/clip.mp4''" 5]
    by (simp add: example_source_done)
qed

lemmas float_eval =
  fl_def float_exponent_def pow2_def round_half_even_def bit_length_numeral py_int_def
  num_or_def Let_def

text \<open>
  The hook computes in floats: for 4700000 of 7000000 bytes the quotient is rounded
  down, its product with 70 is the float below 47, and the hook writes 61, where the
  exact value \<open>15 + 47\<close> is 62.
\<close>

lemma hook_percent_rounds:
  "hook_percent \<lparr>total_bytes = Some 7000000, total_bytes_estimate = None,
                  downloaded_bytes = Some 4700000\<rparr> = Some 61"
  "fl (4700000 / 7000000) = 6047690928183237 / 9007199254740992"
  "fl (fl (4700000 / 7000000) * 70) = 6614661952700415 / 140737488355328"
  by (simp_all add: hook_percent_def float_eval)

lemma restarting_hooks_updates:
  "List.map_filter hook restarting_hooks
     = [[''progress'' \<mapsto> JNum 85], [''progress'' \<mapsto> JNum 20]]"
  by (simp add: restarting_hooks_def hook_def hook_percent_def float_eval)

lemma rising_hooks_percents: "hook_percents (example_env rising_hooks) = [50, 61]"
  by (simp add: rising_hooks_def hook_percents_def example_env_def hook_percent_def float_eval)

lemma rising_hooks_updates:
  "List.map_filter hook rising_hooks
     = [[''progress'' \<mapsto> JNum 50], [''progress'' \<mapsto> JNum 61]]"
  by (simp add: rising_hooks_def hook_def hook_percent_def float_eval)

lemma example_hooks_run:
  assumes "List.map_filter hook hooks = [[''progress'' \<mapsto> JNum x], [''progress'' \<mapsto> JNum y]]"
  shows "observe ''j1'' (run ''j1'' (example_system ''source'' hooks)
           [Worker 1, Worker 2, Worker 3, Worker 4])
         = \<lparr>v_status = Some Downloading, v_result = JNone, v_progress = JNum x\<rparr>"
    and "observe ''j1'' (run ''j1'' (example_system ''source'' hooks)
           [Worker 1, Worker 2, Worker 3, Worker 4, Worker 5])
         = \<lparr>v_status = Some Downloading, v_result = JNone, v_progress = JNum y\<rparr>"
proof -
  let ?us = "[[''status'' \<mapsto> JStr ''fetching'', ''message'' \<mapsto> JStr ''Poluchayu metadannye'',
            ''progress'' \<mapsto> JNum 5],
           [''meta'' \<mapsto> meta_dict \<lparr>title = JStr ''clip'', duration = JNum 10,
               thumbnail = JNone, estimated_size_mb = Some 2\<rparr>],
           [''status'' \<mapsto> JStr ''downloading'',
            ''message'' \<mapsto> JStr ''Skachivayu mediakontent...'', ''progress'' \<mapsto> JNum 15],
           [''progress'' \<mapsto> JNum x]]"
  have "observe ''j1'' (run ''j1'' (example_system ''source'' hooks) (map Worker [1, 2, 3, 4]))
      = fold apply_view ?us (observe ''j1'' (example_system ''source'' hooks))"
    by (rule run_workers [THEN conjunct1]) (simp_all add: example_pending assms)
  then show "observe ''j1'' (run ''j1'' (example_system ''source'' hooks)
           [Worker 1, Worker 2, Worker 3, Worker 4])
         = \<lparr>v_status = Some Downloading, v_result = JNone, v_progress = JNum x\<rparr>"
    by (simp add: example_observe apply_view_def parse_status_def)
  have "observe ''j1''
        (run ''j1'' (example_system ''source'' hooks) (map Worker [1, 2, 3, 4, 5]))
      = fold apply_view (?us @ [[''progress'' \<mapsto> JNum y]])
          (observe ''j1'' (example_system ''source'' hooks))"
    by (rule run_workers [THEN conjunct1]) (simp_all add: example_pending assms)
  then show "observe ''j1'' (run ''j1'' (example_system ''source'' hooks)
           [Worker 1, Worker 2, Worker 3, Worker 4, Worker 5])
         = \<lparr>v_status = Some Downloading, v_result = JNone, v_progress = JNum y\<rparr>"
    by (simp add: example_observe apply_view_def parse_status_def)
qed

section \<open>The claims on the life of a job\<close>

text \<open>
  C2. At every point of the life of a job, after its creation and after any schedule of
  worker updates, requests to the routes and background tasks, the observed record has a
  result that is not null exactly when its status is \<open>done\<close>; in particular the result
  is null whenever the status is \<open>deleted\<close> or \<open>error\<close>.
\<close>

theorem result_non_null_iff_done:
  "((v_result (observe job_id (run job_id (submit b job_id payload now e) schedule)) \<noteq> JNone)
      = (v_status (observe job_id (run job_id (submit b job_id payload now e) schedule))
           = Some Done))
   \<and> (v_status (observe job_id (run job_id (submit b job_id payload now e) schedule))
          = Some Deleted
        \<or> v_status (observe job_id (run job_id (submit b job_id payload now e) schedule))
          = Some Error
        \<longrightarrow> v_result (observe job_id (run job_id (submit b job_id payload now e) schedule))
              = JNone)"
proof -
  let ?v = "observe job_id (run job_id (submit b job_id payload now e) schedule)"
  have "invariant (wants_source payload) False job_id
      (run job_id (submit b job_id payload now e) schedule)"
    by (rule reachable_invariant) simp
  then have "result_iff_done ?v" by (simp add: invariant_def view_ok_def)
  then show ?thesis by (auto simp: result_iff_done_def)
qed

theorem result_non_null_iff_done_witness:
  "v_status (observe ''j1'' (run ''j1'' (example_system ''source'' [])
       [Worker 1, Worker 2, Worker 3, Worker 4, DeleteFile 5])) = Some Deleted
   \<and> v_result (observe ''j1'' (run ''j1'' (example_system ''source'' [])
       [Worker 1, Worker 2, Worker 3, Worker 4, DeleteFile 5])) = JNone
   \<and> v_status (observe ''j1'' (run ''j1'' (example_system ''source'' [])
       [Worker 1, Worker 2, Worker 3, Worker 4])) = Some Done
   \<and> v_result (observe ''j1'' (run ''j1'' (example_system ''source'' [])
       [Worker 1, Worker 2, Worker 3, Worker 4])) \<noteq> JNone"
proof -
  have d: "v_status (observe ''j1'' (run ''j1'' (example_system ''source'' [])
       [Worker 1, Worker 2, Worker 3, Worker 4, DeleteFile 5])) = Some Deleted"
    by (simp add: example_source_deleted)
  have n: "v_result (observe ''j1'' (run ''j1'' (example_system ''source'' [])
       [Worker 1, Worker 2, Worker 3, Worker 4, DeleteFile 5])) = JNone"
    by (rule result_non_null_iff_done
        [where job_id="''j1''" and b="Memory \<lparr>jobs = Map.empty, queue = []\<rparr>"
          and payload="example_payload ''source''" and now=0 and e="example_env []"
          and schedule="[Worker 1, Worker 2, Worker 3, Worker 4, DeleteFile 5]",
          folded example_system_def, THEN conjunct2, THEN mp, OF disjI1 [OF d]])
  have f: "v_status (observe ''j1'' (run ''j1'' (example_system ''source'' [])
       [Worker 1, Worker 2, Worker 3, Worker 4])) = Some Done"
    by (simp add: example_source_done)
  have r: "v_result (observe ''j1'' (run ''j1'' (example_system ''source'' [])
       [Worker 1, Worker 2, Worker 3, Worker 4])) \<noteq> JNone"
    by (rule result_non_null_iff_done
        [where job_id="''j1''" and b="Memory \<lparr>jobs = Map.empty, queue = []\<rparr>"
          and payload="example_payload ''source''" and now=0 and e="example_env []"
          and schedule="[Worker 1, Worker 2, Worker 3, Worker 4]",
          folded example_system_def, THEN conjunct1, THEN iffD2, OF f])
  from d n f r show ?thesis by (intro conjI)
qed

text \<open>
  The path \<open>queued \<rightarrow> fetching \<rightarrow> downloading \<rightarrow> converting \<rightarrow> done\<close> is not
  followed by every job: for the requested format \<open>source\<close> the pipeline does not
  convert, and the update after \<open>downloading\<close> sets the status to \<open>done\<close>.
\<close>

theorem source_format_skips_converting:
  "v_status (observe ''j1'' (run ''j1'' (example_system ''source'' [])
       [Worker 1, Worker 2, Worker 3])) = Some Downloading
   \<and> v_status (observe ''j1'' (run ''j1'' (example_system ''source'' [])
       [Worker 1, Worker 2, Worker 3, Worker 4])) = Some Done
   \<and> \<not> status_change path_step
        (observe ''j1'' (run ''j1'' (example_system ''source'' [])
           [Worker 1, Worker 2, Worker 3]))
        (observe ''j1'' (run ''j1'' (example_system ''source'' [])
           [Worker 1, Worker 2, Worker 3, Worker 4]))"
  by (simp add: example_source_3 example_source_done status_change_def path_step_def
      terminal_def)

text \<open>
  C3, amended. A job starts with the status \<open>queued\<close>, and over its life every event
  leaves the status as it is or changes it along one of two paths, chosen by the
  requested format. For the format \<open>source\<close> the path is
  \<open>queued \<rightarrow> fetching \<rightarrow> downloading \<rightarrow> done\<close>: the status is never \<open>converting\<close>. For
  any other format it is \<open>queued \<rightarrow> fetching \<rightarrow> downloading \<rightarrow> converting \<rightarrow> done\<close>. On
  both, \<open>error\<close> is entered only from a state of the path before \<open>done\<close>, \<open>deleted\<close> only
  from \<open>done\<close> or \<open>error\<close>, and nothing leaves \<open>done\<close>, \<open>error\<close> or \<open>deleted\<close> but the
  change from \<open>done\<close> or \<open>error\<close> to \<open>deleted\<close>.
\<close>

theorem status_follows_lifecycle:
  "v_status (observe job_id (submit b job_id payload now e)) = Some Queued
   \<and> status_change (lifecycle_step (wants_source payload))
     (observe job_id (run job_id (submit b job_id payload now e) schedule))
     (observe job_id (run job_id (submit b job_id payload now e) (schedule @ [ev])))
   \<and> (wants_source payload \<longrightarrow>
        status_change source_step
          (observe job_id (run job_id (submit b job_id payload now e) schedule))
          (observe job_id (run job_id (submit b job_id payload now e) (schedule @ [ev])))
        \<and> v_status (observe job_id (run job_id (submit b job_id payload now e) schedule))
             \<noteq> Some Converting)
   \<and> (\<not> wants_source payload \<longrightarrow>
        status_change path_step
          (observe job_id (run job_id (submit b job_id payload now e) schedule))
          (observe job_id (run job_id (submit b job_id payload now e) (schedule @ [ev]))))"
proof -
  have s: "status_change (lifecycle_step (wants_source payload))
     (observe job_id (run job_id (submit b job_id payload now e) schedule))
     (observe job_id (run job_id (submit b job_id payload now e) (schedule @ [ev])))"
    using reachable_step [of False e payload job_id b now schedule ev] by simp
  have q: "v_status (observe job_id (submit b job_id payload now e)) = Some Queued"
    by (simp add: submit_observe)
  have n: "wants_source payload \<Longrightarrow>
      v_status (observe job_id (run job_id (submit b job_id payload now e) schedule))
             \<noteq> Some Converting"
    by (rule source_never_converting)
  from s have s1: "wants_source payload \<Longrightarrow> status_change source_step
          (observe job_id (run job_id (submit b job_id payload now e) schedule))
          (observe job_id (run job_id (submit b job_id payload now e) (schedule @ [ev])))"
    by (simp add: lifecycle_step_def [abs_def])
  from s have s2: "\<not> wants_source payload \<Longrightarrow> status_change path_step
          (observe job_id (run job_id (submit b job_id payload now e) schedule))
          (observe job_id (run job_id (submit b job_id payload now e) (schedule @ [ev])))"
    by (simp add: lifecycle_step_def [abs_def])
  from q s n s1 s2 show ?thesis by (intro conjI impI)
qed

theorem status_follows_lifecycle_witness:
  "wants_source (example_payload ''source'')
   \<and> status_change source_step
        (observe ''j1'' (run ''j1'' (example_system ''source'' [])
           [Worker 1, Worker 2, Worker 3]))
        (observe ''j1'' (run ''j1'' (example_system ''source'' [])
           ([Worker 1, Worker 2, Worker 3] @ [Worker 4])))
   \<and> v_status (observe ''j1'' (run ''j1'' (example_system ''source'' [])
           [Worker 1, Worker 2, Worker 3])) \<noteq> Some Converting
   \<and> \<not> wants_source (example_payload ''mp3'')
   \<and> status_change path_step
        (observe ''j1'' (run ''j1'' (example_system ''mp3'' []) []))
        (observe ''j1'' (run ''j1'' (example_system ''mp3'' []) ([] @ [Worker 1])))"
proof -
  have s: "wants_source (example_payload ''source'')"
    by (simp add: wants_source_def example_payload_def dget_def py_or_def lower_def)
  have m: "\<not> wants_source (example_payload ''mp3'')"
    by (simp add: wants_source_def example_payload_def dget_def py_or_def lower_def)
  note t = status_follows_lifecycle
        [where job_id="''j1''" and b="Memory \<lparr>jobs = Map.empty, queue = []\<rparr>"
          and payload="example_payload ''source''" and now=0 and e="example_env []"
          and schedule="[Worker 1, Worker 2, Worker 3]" and ev="Worker 4",
          folded example_system_def, THEN conjunct2, THEN conjunct2, THEN conjunct1,
          THEN mp, OF s]
  have a: "status_change source_step
        (observe ''j1'' (run ''j1'' (example_system ''source'' [])
           [Worker 1, Worker 2, Worker 3]))
        (observe ''j1'' (run ''j1'' (example_system ''source'' [])
           ([Worker 1, Worker 2, Worker 3] @ [Worker 4])))"
    by (rule t [THEN conjunct1])
  have c: "v_status (observe ''j1'' (run ''j1'' (example_system ''source'' [])
           [Worker 1, Worker 2, Worker 3])) \<noteq> Some Converting"
    by (rule t [THEN conjunct2])
  have b: "status_change path_step
        (observe ''j1'' (run ''j1'' (example_system ''mp3'' []) []))
        (observe ''j1'' (run ''j1'' (example_system ''mp3'' []) ([] @ [Worker 1])))"
    by (rule status_follows_lifecycle
        [where job_id="''j1''" and b="Memory \<lparr>jobs = Map.empty, queue = []\<rparr>"
          and payload="example_payload ''mp3''" and now=0 and e="example_env []"
          and schedule="[]" and ev="Worker 1",
          folded example_system_def, THEN conjunct2, THEN conjunct2, THEN conjunct2,
          THEN mp, OF m])
  from s a c m b show ?thesis by (intro conjI)
qed

text \<open>
  The progress of a job can go down: the hook writes what each callback of \<^verbatim>\<open>yt-dlp\<close>
  reports, clamped to 20..90, and compares nothing. With the callbacks
  \<open>restarting_hooks\<close> the fourth update of the worker writes 85 and the fifth writes 20.
\<close>

theorem restarted_download_lowers_progress:
  "v_progress (observe ''j1'' (run ''j1'' (example_system ''source'' restarting_hooks)
       [Worker 1, Worker 2, Worker 3, Worker 4])) = JNum 85
   \<and> v_progress (observe ''j1'' (run ''j1'' (example_system ''source'' restarting_hooks)
       [Worker 1, Worker 2, Worker 3, Worker 4, Worker 5])) = JNum 20
   \<and> \<not> progress_le
        (observe ''j1'' (run ''j1'' (example_system ''source'' restarting_hooks)
           [Worker 1, Worker 2, Worker 3, Worker 4]))
        (observe ''j1'' (run ''j1'' (example_system ''source'' restarting_hooks)
           [Worker 1, Worker 2, Worker 3, Worker 4, Worker 5]))"
  by (simp add: example_hooks_run [OF restarting_hooks_updates] progress_le_def)

text \<open>
  C4, amended. At every point of the life of a job the progress is a number within
  0..100, and no event lowers it provided the values that the hook computes from the
  progress callbacks fired during the download, \<^verbatim>\<open>int(15 + (done / total) * 70)\<close> in floats
  clamped to 20..90, do not decrease from one callback to the next.
\<close>

theorem progress_in_range_and_nondecreasing:
  "progress_in_range (observe job_id (run job_id (submit b job_id payload now e) schedule))
   \<and> (sorted (hook_percents e) \<longrightarrow>
        progress_le
          (observe job_id (run job_id (submit b job_id payload now e) schedule))
          (observe job_id (run job_id (submit b job_id payload now e) (schedule @ [ev]))))"
proof -
  have "invariant (wants_source payload) False job_id
      (run job_id (submit b job_id payload now e) schedule)"
    by (rule reachable_invariant) simp
  then have r: "progress_in_range
      (observe job_id (run job_id (submit b job_id payload now e) schedule))"
    by (simp add: invariant_def view_ok_def)
  have "progress_le
          (observe job_id (run job_id (submit b job_id payload now e) schedule))
          (observe job_id (run job_id (submit b job_id payload now e) (schedule @ [ev])))"
    if "sorted (hook_percents e)"
    using reachable_step [of True e payload job_id b now schedule ev] that by simp
  with r show ?thesis by simp
qed

theorem progress_in_range_and_nondecreasing_witness:
  "sorted (hook_percents (example_env rising_hooks))
   \<and> v_progress (observe ''j1'' (run ''j1'' (example_system ''source'' rising_hooks)
        [Worker 1, Worker 2, Worker 3, Worker 4])) = JNum 50
   \<and> v_progress (observe ''j1'' (run ''j1'' (example_system ''source'' rising_hooks)
        ([Worker 1, Worker 2, Worker 3, Worker 4] @ [Worker 5]))) = JNum 61
   \<and> progress_le
        (observe ''j1'' (run ''j1'' (example_system ''source'' rising_hooks)
           [Worker 1, Worker 2, Worker 3, Worker 4]))
        (observe ''j1'' (run ''j1'' (example_system ''source'' rising_hooks)
           ([Worker 1, Worker 2, Worker 3, Worker 4] @ [Worker 5])))
   \<and> progress_in_range
        (observe ''j1'' (run ''j1'' (example_system ''source'' rising_hooks)
           [Worker 1, Worker 2, Worker 3, Worker 4]))"
proof -
  have s: "sorted (hook_percents (example_env rising_hooks))"
    by (simp add: rising_hooks_percents)
  note t = progress_in_range_and_nondecreasing
        [where job_id="''j1''" and b="Memory \<lparr>jobs = Map.empty, queue = []\<rparr>"
          and payload="example_payload ''source''" and now=0
          and e="example_env rising_hooks"
          and schedule="[Worker 1, Worker 2, Worker 3, Worker 4]" and ev="Worker 5",
          folded example_system_def]
  have p4: "v_progress (observe ''j1'' (run ''j1'' (example_system ''source'' rising_hooks)
        [Worker 1, Worker 2, Worker 3, Worker 4])) = JNum 50"
    by (simp add: example_hooks_run [OF rising_hooks_updates])
  have p5: "v_progress (observe ''j1'' (run ''j1'' (example_system ''source'' rising_hooks)
        ([Worker 1, Worker 2, Worker 3, Worker 4] @ [Worker 5]))) = JNum 61"
    by (simp add: example_hooks_run [OF rising_hooks_updates])
  have le: "progress_le
        (observe ''j1'' (run ''j1'' (example_system ''source'' rising_hooks)
           [Worker 1, Worker 2, Worker 3, Worker 4]))
        (observe ''j1'' (run ''j1'' (example_system ''source'' rising_hooks)
           ([Worker 1, Worker 2, Worker 3, Worker 4] @ [Worker 5])))"
    by (rule t [THEN conjunct2, THEN mp, OF s])
  have r: "progress_in_range
        (observe ''j1'' (run ''j1'' (example_system ''source'' rising_hooks)
           [Worker 1, Worker 2, Worker 3, Worker 4]))"
    by (rule t [THEN conjunct1])
  from s p4 p5 le r show ?thesis by (intro conjI)
qed

section \<open>What a read shares with the store\<close>

lemma snapshot_frame:
  assumes wf: "wf_heap h"
    and same: "\<forall>a<next_addr h. objects h' a = objects h a"
  shows "(\<forall>r. v = PRef r \<longrightarrow> r < next_addr h) \<Longrightarrow> snapshot n h' v = snapshot n h v"
proof (induction n arbitrary: v)
  case 0
  show ?case by (cases v) simp_all
next
  case (Suc n)
  show ?case
  proof (cases v)
    case (PRef r)
    with Suc.prems have r: "r < next_addr h" by simp
    hence eq: "objects h' r = objects h r" using same by simp
    show ?thesis
    proof (cases "objects h r")
      case None
      thus ?thesis using PRef eq by simp
    next
      case (Some d)
      have "\<forall>kv\<in>set d. snapshot n h' (snd kv) = snapshot n h (snd kv)"
      proof
        fix kv assume kv: "kv \<in> set d"
        have "\<forall>r'. snd kv = PRef r' \<longrightarrow> r' < next_addr h"
        proof (intro allI impI)
          fix r' assume "snd kv = PRef r'"
          hence "(fst kv, PRef r') \<in> set d" using kv by (metis prod.collapse)
          thus "r' < next_addr h" using wf Some unfolding wf_heap_def by simp
        qed
        thus "snapshot n h' (snd kv) = snapshot n h (snd kv)" by (rule Suc.IH)
      qed
      thus ?thesis using PRef eq Some by simp
    qed
  qed simp_all
qed

lemma new_dict_frame:
  "new_dict h d = (a, h') \<Longrightarrow>
     a = next_addr h \<and> next_addr h' = Suc (next_addr h) \<and> objects h' a = Some d \<and>
     (\<forall>b. b \<noteq> a \<longrightarrow> objects h' b = objects h b)"
  by (auto simp: new_dict_def)

lemma set_item_frame: "b \<noteq> a \<Longrightarrow> objects (set_item h a k v) b = objects h b"
  by (simp add: set_item_def split: option.splits)

lemma del_item_frame: "b \<noteq> a \<Longrightarrow> objects (del_item h a k) b = objects h b"
  by (simp add: del_item_def split: option.splits)

lemma wf_new_dict:
  assumes wf: "wf_heap h" and d: "\<forall>k r. (k, PRef r) \<in> set d \<longrightarrow> r < next_addr h"
    and nd: "new_dict h d = (a, h')"
  shows "wf_heap h'"
  using wf d nd unfolding wf_heap_def new_dict_def
  by (auto simp: less_Suc_eq split: if_splits)

lemma get_obj_some:
  assumes "js job_id = Some job" and "objects h job = Some d" and "d \<noteq> []"
  shows "MemoryBackend_get_obj h js job_id = (Some (next_addr h), snd (new_dict h d))"
  using assms by (simp add: MemoryBackend_get_obj_def dict_copy_def new_dict_def)

lemma job_status_obj_some:
  assumes "js job_id = Some job" and "objects h job = Some d" and "d \<noteq> []"
  shows "job_status_obj (MemoryBackend_get_obj h js job_id) =
           (Some (Suc (next_addr h)), snd (new_dict (snd (new_dict h d)) d))"
  using assms
  by (simp add: job_status_obj_def MemoryBackend_get_obj_def dict_copy_def new_dict_def)

text \<open>A heap that keeps the objects of a well-formed heap \<open>h\<close> reads every record of \<open>h\<close>
  as \<open>h\<close> does.\<close>

lemma stored_record_frame:
  assumes wf: "wf_heap h" and js: "js job_id = Some job" and d: "objects h job = Some d"
    and same: "\<forall>a<next_addr h. objects h' a = objects h a"
  shows "stored_record n h' js job_id = stored_record n h js job_id"
proof -
  have "job < next_addr h" using wf d unfolding wf_heap_def by simp
  hence "snapshot n h' (PRef job) = snapshot n h (PRef job)"
    using snapshot_frame [OF wf same] by simp
  thus ?thesis using js by (simp add: stored_record_def)
qed

lemma fresh_addr:
  assumes wf: "wf_heap h" and a: "next_addr h \<le> a"
  shows "objects h a = None"
proof (cases "objects h a")
  case (Some d)
  hence "a < next_addr h" using wf unfolding wf_heap_def by simp
  thus ?thesis using a by simp
qed simp

text \<open>
  \<^verbatim>\<open>json.loads\<close> leaves the objects that exist alone, and the value it builds reads as the
  text it was given in every heap that keeps the objects it allocated.
\<close>

lemma loads_frame:
  "\<forall>pv h'. loads v h = (pv, h') \<longrightarrow>
     next_addr h \<le> next_addr h' \<and>
     (\<forall>a<next_addr h. objects h' a = objects h a) \<and>
     (\<forall>h'' n. (\<forall>a. next_addr h \<le> a \<and> a < next_addr h' \<longrightarrow> objects h'' a = objects h' a) \<longrightarrow>
        depth v \<le> n \<longrightarrow> snapshot n h'' pv = v)"
  "\<forall>d h'. loads_items kvs h = (d, h') \<longrightarrow>
     next_addr h \<le> next_addr h' \<and>
     (\<forall>a<next_addr h. objects h' a = objects h a) \<and>
     (\<forall>h'' n. (\<forall>a. next_addr h \<le> a \<and> a < next_addr h' \<longrightarrow> objects h'' a = objects h' a) \<longrightarrow>
        depth_items kvs \<le> n \<longrightarrow> map (\<lambda>kv. (fst kv, snapshot n h'' (snd kv))) d = kvs)"
proof (induction v h and kvs h rule: loads_loads_items.induct)
  case (5 kvs h)
  show ?case
  proof (intro allI impI)
    fix pv h2 assume l: "loads (JDict kvs) h = (pv, h2)"
    obtain d h1 where li: "loads_items kvs h = (d, h1)" by (cases "loads_items kvs h")
    obtain a where nd: "new_dict h1 d = (a, h2)" and pv: "pv = PRef a"
      using l li by (auto split: prod.splits)
    note ih = 5 [rule_format, OF li]
    note f = new_dict_frame [OF nd]
    have n1: "next_addr h \<le> next_addr h1" using ih by simp
    have a: "a = next_addr h1" and n2: "next_addr h2 = Suc (next_addr h1)"
      and oa: "objects h2 a = Some d"
      and ob: "\<And>b. b \<noteq> a \<Longrightarrow> objects h2 b = objects h1 b" using f by auto
    have c1: "next_addr h \<le> next_addr h2" using n1 n2 by simp
    have c2: "\<forall>b<next_addr h. objects h2 b = objects h b"
    proof (intro allI impI)
      fix b assume b: "b < next_addr h"
      hence "b \<noteq> a" using a n1 by simp
      thus "objects h2 b = objects h b" using ob ih b by simp
    qed
    have c3: "\<forall>h'' n. (\<forall>b. next_addr h \<le> b \<and> b < next_addr h2 \<longrightarrow> objects h'' b = objects h2 b) \<longrightarrow>
        depth (JDict kvs) \<le> n \<longrightarrow> snapshot n h'' pv = JDict kvs"
    proof (intro allI impI)
      fix h'' :: heap and n :: nat
      assume ag: "\<forall>b. next_addr h \<le> b \<and> b < next_addr h2 \<longrightarrow> objects h'' b = objects h2 b"
        and dn: "depth (JDict kvs) \<le> n"
      then obtain m where n: "n = Suc m" and dm: "depth_items kvs \<le> m" by (cases n) simp_all
      have "objects h'' a = Some d" using ag a n1 n2 oa by simp
      moreover have "\<forall>b. next_addr h \<le> b \<and> b < next_addr h1 \<longrightarrow> objects h'' b = objects h1 b"
      proof (intro allI impI)
        fix b assume b: "next_addr h \<le> b \<and> b < next_addr h1"
        hence "b \<noteq> a" using a by simp
        thus "objects h'' b = objects h1 b" using ag b n2 ob by simp
      qed
      hence "map (\<lambda>kv. (fst kv, snapshot m h'' (snd kv))) d = kvs" using ih dm by simp
      ultimately show "snapshot n h'' pv = JDict kvs" using pv n by simp
    qed
    show "next_addr h \<le> next_addr h2 \<and>
     (\<forall>a<next_addr h. objects h2 a = objects h a) \<and>
     (\<forall>h'' n. (\<forall>a. next_addr h \<le> a \<and> a < next_addr h2 \<longrightarrow> objects h'' a = objects h2 a) \<longrightarrow>
        depth (JDict kvs) \<le> n \<longrightarrow> snapshot n h'' pv = JDict kvs)"
      using c1 c2 c3 by simp
  qed
next
  case (7 k v kvs h)
  show ?case
  proof (intro allI impI)
    fix d h2 assume l: "loads_items ((k, v) # kvs) h = (d, h2)"
    obtain pv h1 where lv: "loads v h = (pv, h1)" by (cases "loads v h")
    obtain d' where li: "loads_items kvs h1 = (d', h2)" and d: "d = (k, pv) # d'"
      using l lv by (auto split: prod.splits)
    note ih1 = 7(1) [rule_format, OF lv]
    note ih2 = 7(2) [rule_format, OF lv [symmetric] li]
    have n1: "next_addr h \<le> next_addr h1" using ih1 by simp
    have n2: "next_addr h1 \<le> next_addr h2" using ih2 by simp
    have c1: "next_addr h \<le> next_addr h2" using n1 n2 by simp
    have c2: "\<forall>b<next_addr h. objects h2 b = objects h b" using ih1 ih2 n1 by simp
    have c3: "\<forall>h'' n. (\<forall>b. next_addr h \<le> b \<and> b < next_addr h2 \<longrightarrow> objects h'' b = objects h2 b) \<longrightarrow>
        depth_items ((k, v) # kvs) \<le> n \<longrightarrow> map (\<lambda>kv. (fst kv, snapshot n h'' (snd kv))) d = (k, v) # kvs"
    proof (intro allI impI)
      fix h'' :: heap and n :: nat
      assume ag: "\<forall>b. next_addr h \<le> b \<and> b < next_addr h2 \<longrightarrow> objects h'' b = objects h2 b"
        and dn: "depth_items ((k, v) # kvs) \<le> n"
      have "\<forall>b. next_addr h \<le> b \<and> b < next_addr h1 \<longrightarrow> objects h'' b = objects h1 b"
        using ag ih2 n2 by simp
      hence e1: "snapshot n h'' pv = v" using ih1 dn by simp
      have "\<forall>b. next_addr h1 \<le> b \<and> b < next_addr h2 \<longrightarrow> objects h'' b = objects h2 b"
        using ag n1 by simp
      hence e2: "map (\<lambda>kv. (fst kv, snapshot n h'' (snd kv))) d' = kvs" using ih2 dn by simp
      show "map (\<lambda>kv. (fst kv, snapshot n h'' (snd kv))) d = (k, v) # kvs"
        using d e1 e2 by simp
    qed
    show "next_addr h \<le> next_addr h2 \<and>
     (\<forall>a<next_addr h. objects h2 a = objects h a) \<and>
     (\<forall>h'' n. (\<forall>a. next_addr h \<le> a \<and> a < next_addr h2 \<longrightarrow> objects h'' a = objects h2 a) \<longrightarrow>
        depth_items ((k, v) # kvs) \<le> n \<longrightarrow> map (\<lambda>kv. (fst kv, snapshot n h'' (snd kv))) d = (k, v) # kvs)"
      using c1 c2 c3 by simp
  qed
qed auto


lemma example_store:
  "example_jobs = [''j1'' \<mapsto> 1]"
  "example_heap =
     \<lparr>objects = [0 \<mapsto> [(''url'', PStr ''https://youtu.be/abc''), (''format'', PStr ''mp4'')],
                 1 \<mapsto> initial_record_obj ''j1'' 0 100],
      next_addr = 2\<rparr>"
  by (simp_all add: example_jobs_def example_heap_def MemoryBackend_enqueue_obj_def
      new_dict_def example_request_def)

lemma wf_example_heap: "wf_heap example_heap"
  unfolding wf_heap_def example_store initial_record_obj_def by (auto split: if_splits)

text \<open>What \<open>get\<close> and \<open>job_status\<close> return for a stored job, on either backend.\<close>

lemma memory_read_cases:
  assumes js: "js job_id = Some job" and d: "objects h job = Some d" and ne: "d \<noteq> []"
    and rm: "rm = MemoryBackend_get_obj h js job_id
             \<or> rm = job_status_obj (MemoryBackend_get_obj h js job_id)"
  shows "\<exists>a h'. rm = (Some a, h') \<and> next_addr h \<le> a \<and> objects h' a = Some d
           \<and> (\<forall>b<next_addr h. objects h' b = objects h b)"
  using rm
proof
  assume "rm = MemoryBackend_get_obj h js job_id"
  hence "rm = (Some (next_addr h), snd (new_dict h d))"
    using get_obj_some [where js=js and h=h, OF js d ne] by simp
  moreover have "objects (snd (new_dict h d)) (next_addr h) = Some d"
    by (simp add: new_dict_def)
  moreover have "\<forall>b<next_addr h. objects (snd (new_dict h d)) b = objects h b"
    by (simp add: new_dict_def)
  ultimately show ?thesis by simp
next
  assume "rm = job_status_obj (MemoryBackend_get_obj h js job_id)"
  hence "rm = (Some (Suc (next_addr h)), snd (new_dict (snd (new_dict h d)) d))"
    using job_status_obj_some [where js=js and h=h, OF js d ne] by simp
  moreover have "objects (snd (new_dict (snd (new_dict h d)) d)) (Suc (next_addr h)) = Some d"
    by (simp add: new_dict_def)
  moreover have "\<forall>b<next_addr h. objects (snd (new_dict (snd (new_dict h d)) d)) b = objects h b"
    by (simp add: new_dict_def)
  ultimately show ?thesis by simp
qed

lemma rq_read_cases:
  assumes raw: "redis_text (key job_id) = Some kvs"
    and rq: "rq = RQBackend_get_obj h redis_text job_id
             \<or> rq = job_status_obj (RQBackend_get_obj h redis_text job_id)"
  shows "\<exists>a h'. rq = (Some a, h') \<and> next_addr h \<le> a
           \<and> (\<forall>b<next_addr h. objects h' b = objects h b)
           \<and> (\<forall>h'' n. (\<forall>b. next_addr h \<le> b \<and> b < next_addr h' \<longrightarrow>
                             objects h'' b = objects h' b) \<longrightarrow>
                 depth (JDict kvs) \<le> n \<longrightarrow> snapshot n h'' (PRef a) = JDict kvs)"
proof -
  obtain d h1 where li: "loads_items kvs h = (d, h1)" by (cases "loads_items kvs h")
  obtain a h2 where nd: "new_dict h1 d = (a, h2)" by (cases "new_dict h1 d")
  have l: "loads (JDict kvs) h = (PRef a, h2)" using li nd by simp
  have g: "RQBackend_get_obj h redis_text job_id = (Some a, h2)"
    using raw li nd by (simp add: RQBackend_get_obj_def)
  note fi = loads_frame(2) [rule_format, OF li]
  note fl = loads_frame(1) [rule_format, OF l]
  note f = new_dict_frame [OF nd]
  have a: "a = next_addr h1" and n2: "next_addr h2 = Suc (next_addr h1)"
    and oa: "objects h2 a = Some d" using f by auto
  have n1: "next_addr h \<le> next_addr h1" using fi by simp
  have na: "next_addr h \<le> a" using a n1 by simp
  have same2: "\<forall>b<next_addr h. objects h2 b = objects h b" using fl by simp
  have snap2: "\<forall>h'' n. (\<forall>b. next_addr h \<le> b \<and> b < next_addr h2 \<longrightarrow>
                             objects h'' b = objects h2 b) \<longrightarrow>
                 depth (JDict kvs) \<le> n \<longrightarrow> snapshot n h'' (PRef a) = JDict kvs"
    using fl by simp
  from rq show ?thesis
  proof
    assume "rq = RQBackend_get_obj h redis_text job_id"
    hence "rq = (Some a, h2)" using g by simp
    thus ?thesis using na same2 snap2 by simp
  next
    assume r: "rq = job_status_obj (RQBackend_get_obj h redis_text job_id)"
    obtain a3 h3 where nd3: "new_dict h2 d = (a3, h3)" by (cases "new_dict h2 d")
    have r3: "rq = (Some a3, h3)"
      using r g nd3 oa by (simp add: job_status_obj_def dict_copy_def)
    note f3 = new_dict_frame [OF nd3]
    have a3: "a3 = next_addr h2" and n3: "next_addr h3 = Suc (next_addr h2)"
      and oa3: "objects h3 a3 = Some d"
      and ob3: "\<And>b. b \<noteq> a3 \<Longrightarrow> objects h3 b = objects h2 b" using f3 by auto
    have na3: "next_addr h \<le> a3" using a3 n2 n1 by simp
    have same3: "\<forall>b<next_addr h. objects h3 b = objects h b"
    proof (intro allI impI)
      fix b assume b: "b < next_addr h"
      hence "b \<noteq> a3" using na3 by simp
      thus "objects h3 b = objects h b" using ob3 same2 b by simp
    qed
    have snap3: "\<forall>h'' n. (\<forall>b. next_addr h \<le> b \<and> b < next_addr h3 \<longrightarrow>
                             objects h'' b = objects h3 b) \<longrightarrow>
                 depth (JDict kvs) \<le> n \<longrightarrow> snapshot n h'' (PRef a3) = JDict kvs"
    proof (intro allI impI)
      fix h'' :: heap and n :: nat
      assume ag: "\<forall>b. next_addr h \<le> b \<and> b < next_addr h3 \<longrightarrow> objects h'' b = objects h3 b"
        and dn: "depth (JDict kvs) \<le> n"
      then obtain m where n: "n = Suc m" by (cases n) simp_all
      have ag2: "\<forall>b. next_addr h \<le> b \<and> b < next_addr h2 \<longrightarrow> objects h'' b = objects h2 b"
      proof (intro allI impI)
        fix b assume b: "next_addr h \<le> b \<and> b < next_addr h2"
        hence "b \<noteq> a3" using a3 by simp
        thus "objects h'' b = objects h2 b" using ag b n3 ob3 by simp
      qed
      have s: "snapshot n h'' (PRef a) = JDict kvs"
        using snap2 [rule_format, OF _ dn, of h''] ag2 by simp
      have "objects h'' a = Some d" using ag2 na a n2 oa by simp
      moreover have "objects h'' a3 = Some d" using ag na3 a3 n3 oa3 by simp
      ultimately have "snapshot n h'' (PRef a3) = snapshot n h'' (PRef a)"
        using n by simp
      thus "snapshot n h'' (PRef a3) = JDict kvs" using s by simp
    qed
    show ?thesis using r3 na3 same3 snap3 by simp
  qed
qed

section \<open>Reads return copies\<close>

text \<open>
  C6. A read returns a snapshot: a write to any part of the returned value, nested or
  not, leaves the stored record unchanged. The in-memory backend does not do this.
  \<^verbatim>\<open>MemoryBackend.get\<close> returns \<^verbatim>\<open>dict(job)\<close>, a new dict whose entries are those of the
  stored record, so the dict under \<^verbatim>\<open>"payload"\<close> of the returned value is the very object
  the stored record refers to. In the example the read of job \<open>j1\<close> returns the new
  object 2, whose payload is object 0, as is the payload of the stored record; after
  \<^verbatim>\<open>job["payload"]["url"] = "changed"\<close> on the returned value the payload of the stored
  record reads \<^verbatim>\<open>"changed"\<close> where it read the submitted URL before.
\<close>

theorem nested_write_reaches_store:
  "fst example_read = Some 2
   \<and> get_item example_heap 1 ''payload'' = Some (PRef 0)
   \<and> get_item (snd example_read) 2 ''payload'' = Some (PRef 0)
   \<and> snapshot 1 example_heap (PRef 0)
       = JDict [(''url'', JStr ''https://youtu.be/abc''), (''format'', JStr ''mp4'')]
   \<and> snapshot 1 example_nested_write (PRef 0)
       = JDict [(''url'', JStr ''changed''), (''format'', JStr ''mp4'')]
   \<and> get_item example_nested_write 1 ''payload'' = Some (PRef 0)
   \<and> stored_record 2 example_nested_write example_jobs ''j1''
       \<noteq> stored_record 2 example_heap example_jobs ''j1''"
  by (simp add: example_read_def example_nested_write_def example_store
      initial_record_obj_def MemoryBackend_get_obj_def dict_copy_def new_dict_def
      get_item_def set_item_def stored_record_def eval_nat_numeral)

text \<open>
  What the reads do guarantee. Let job \<open>job_id\<close> be stored with a non-empty record in a
  well-formed heap. In the in-memory backend \<open>get\<close>, and \<open>job_status\<close> built on it, return
  a dict object that did not exist before the read and holds the entries of the stored
  record; the read leaves the stored record as it was, read to any depth, and so does
  assigning to a key of the returned dict or deleting one. In the RQ backend \<open>get\<close>, and
  \<open>job_status\<close> built on it, return a dict object that did not exist before the read,
  leave every object that existed as it was, and the returned value reads as the stored
  text in every heap that keeps the objects allocated by the read: it is built from new
  objects only, and the stored text is not an object of the heap, so that no write to
  the returned value, nested or not, reaches it.
\<close>

proposition reads_copy_the_top_level:
  assumes wf: "wf_heap h"
    and js: "js job_id = Some job" and d: "objects h job = Some d" and ne: "d \<noteq> []"
    and rm: "rm = MemoryBackend_get_obj h js job_id
             \<or> rm = job_status_obj (MemoryBackend_get_obj h js job_id)"
    and raw: "redis_text (key job_id) = Some kvs"
    and rq: "rq = RQBackend_get_obj h redis_text job_id
             \<or> rq = job_status_obj (RQBackend_get_obj h redis_text job_id)"
  shows "(case rm of
            (None, h') \<Rightarrow> False
          | (Some a, h') \<Rightarrow>
              objects h a = None \<and> objects h' a = Some d \<and>
              (\<forall>n. stored_record n h' js job_id = stored_record n h js job_id) \<and>
              (\<forall>k v n. stored_record n (set_item h' a k v) js job_id =
                         stored_record n h js job_id) \<and>
              (\<forall>k n. stored_record n (del_item h' a k) js job_id =
                       stored_record n h js job_id)) \<and>
         (case rq of
            (None, h') \<Rightarrow> False
          | (Some a, h') \<Rightarrow>
              objects h a = None \<and>
              (\<forall>b<next_addr h. objects h' b = objects h b) \<and>
              (\<forall>h'' n. (\<forall>b. next_addr h \<le> b \<and> b < next_addr h' \<longrightarrow>
                              objects h'' b = objects h' b) \<longrightarrow>
                        depth (JDict kvs) \<le> n \<longrightarrow> snapshot n h'' (PRef a) = JDict kvs))"
proof (rule conjI)
  from memory_read_cases [OF js d ne rm]
  obtain a h' where r: "rm = (Some a, h')" and a: "next_addr h \<le> a"
    and oa: "objects h' a = Some d"
    and same: "\<forall>b<next_addr h. objects h' b = objects h b"
    by auto
  have fresh: "objects h a = None" by (rule fresh_addr [OF wf a])
  have s1: "stored_record n h' js job_id = stored_record n h js job_id" for n
    by (rule stored_record_frame [where js=js and job_id=job_id, OF wf js d same])
  have s2: "stored_record n (set_item h' a k v) js job_id = stored_record n h js job_id"
    for n k v
  proof -
    have "\<forall>b<next_addr h. objects (set_item h' a k v) b = objects h b"
      using same a by (simp add: set_item_frame)
    thus ?thesis by (rule stored_record_frame [where js=js and job_id=job_id, OF wf js d])
  qed
  have s3: "stored_record n (del_item h' a k) js job_id = stored_record n h js job_id"
    for n k
  proof -
    have "\<forall>b<next_addr h. objects (del_item h' a k) b = objects h b"
      using same a by (simp add: del_item_frame)
    thus ?thesis by (rule stored_record_frame [where js=js and job_id=job_id, OF wf js d])
  qed
  show "case rm of
            (None, h') \<Rightarrow> False
          | (Some a, h') \<Rightarrow>
              objects h a = None \<and> objects h' a = Some d \<and>
              (\<forall>n. stored_record n h' js job_id = stored_record n h js job_id) \<and>
              (\<forall>k v n. stored_record n (set_item h' a k v) js job_id =
                         stored_record n h js job_id) \<and>
              (\<forall>k n. stored_record n (del_item h' a k) js job_id =
                       stored_record n h js job_id)"
    using r fresh oa s1 s2 s3 by simp
next
  from rq_read_cases [OF raw rq]
  obtain a h' where r: "rq = (Some a, h')" and a: "next_addr h \<le> a"
    and same: "\<forall>b<next_addr h. objects h' b = objects h b"
    and snap: "\<forall>h'' n. (\<forall>b. next_addr h \<le> b \<and> b < next_addr h' \<longrightarrow>
                             objects h'' b = objects h' b) \<longrightarrow>
                 depth (JDict kvs) \<le> n \<longrightarrow> snapshot n h'' (PRef a) = JDict kvs"
    by auto
  have fresh: "objects h a = None" by (rule fresh_addr [OF wf a])
  show "case rq of
            (None, h') \<Rightarrow> False
          | (Some a, h') \<Rightarrow>
              objects h a = None \<and>
              (\<forall>b<next_addr h. objects h' b = objects h b) \<and>
              (\<forall>h'' n. (\<forall>b. next_addr h \<le> b \<and> b < next_addr h' \<longrightarrow>
                              objects h'' b = objects h' b) \<longrightarrow>
                        depth (JDict kvs) \<le> n \<longrightarrow> snapshot n h'' (PRef a) = JDict kvs)"
    using r fresh same snap by simp
qed

proposition reads_copy_the_top_level_example:
  "wf_heap example_heap \<and>
   example_jobs ''j1'' = Some 1 \<and>
   fst (job_status_obj (MemoryBackend_get_obj example_heap example_jobs ''j1'')) = Some 3 \<and>
   get_item (set_item (snd (job_status_obj
                (MemoryBackend_get_obj example_heap example_jobs ''j1''))) 3
               ''status'' (PStr ''done'')) 3 ''status'' = Some (PStr ''done'') \<and>
   stored_record 2 (set_item (snd (job_status_obj
                      (MemoryBackend_get_obj example_heap example_jobs ''j1''))) 3
                      ''status'' (PStr ''done'')) example_jobs ''j1'' =
     stored_record 2 example_heap example_jobs ''j1'' \<and>
   example_redis (key ''j1'') = Some example_raw \<and>
   fst (job_status_obj (RQBackend_get_obj example_heap example_redis ''j1'')) = Some 4 \<and>
   snapshot 2 (snd (job_status_obj (RQBackend_get_obj example_heap example_redis ''j1'')))
     (PRef 4) = JDict example_raw"
proof -
  let ?d = "initial_record_obj ''j1'' 0 100"
  let ?R = "job_status_obj (MemoryBackend_get_obj example_heap example_jobs ''j1'')"
  let ?Q = "job_status_obj (RQBackend_get_obj example_heap example_redis ''j1'')"
  have wf: "wf_heap example_heap" by (rule wf_example_heap)
  have js: "example_jobs ''j1'' = Some 1" by (simp add: example_store)
  have d: "objects example_heap 1 = Some ?d" by (simp add: example_store)
  have ne: "?d \<noteq> []" by (simp add: initial_record_obj_def)
  have rm: "?R = MemoryBackend_get_obj example_heap example_jobs ''j1'' \<or> ?R = ?R"
    by simp
  have rq: "?Q = RQBackend_get_obj example_heap example_redis ''j1'' \<or> ?Q = ?Q"
    by simp
  have raw: "example_redis (key ''j1'') = Some example_raw" by (simp add: example_redis_def)
  note R = job_status_obj_some [where js=example_jobs and h=example_heap, OF js d ne]
  have f3: "fst ?R = Some 3"
    unfolding R by (simp add: example_store)
  have gi: "get_item (set_item (snd ?R) 3 ''status'' (PStr ''done'')) 3 ''status'' =
              Some (PStr ''done'')"
    unfolding R
    by (simp add: example_store new_dict_def set_item_def get_item_def initial_record_obj_def)
  have q: "fst ?Q = Some 4"
    by (simp add: job_status_obj_def RQBackend_get_obj_def raw example_raw_def new_dict_def
        dict_copy_def example_store)
  note t = reads_copy_the_top_level
      [where h=example_heap and js=example_jobs and job_id="''j1''" and job=1
         and rm="?R" and redis_text=example_redis and kvs=example_raw and rq="?Q",
       OF wf js d ne rm raw rq]
  note t' = t [simplified case_prod_beta f3 q option.case]
  have m: "stored_record 2 (set_item (snd ?R) 3 ''status'' (PStr ''done'')) example_jobs ''j1'' =
             stored_record 2 example_heap example_jobs ''j1''"
    by (rule t' [THEN conjunct1, THEN conjunct2, THEN conjunct2, THEN conjunct2,
                 THEN conjunct1, rule_format])
  have dp: "depth (JDict example_raw) \<le> 2" by (simp add: example_raw_def)
  have ag: "\<forall>b. next_addr example_heap \<le> b \<and> b < next_addr (snd ?Q) \<longrightarrow>
                objects (snd ?Q) b = objects (snd ?Q) b" by simp
  have s: "snapshot 2 (snd ?Q) (PRef 4) = JDict example_raw"
    by (rule t' [THEN conjunct2, THEN conjunct2, THEN conjunct2, THEN spec [where x="snd ?Q"],
                 THEN spec [where x=2], THEN mp, THEN mp, OF ag dp])
  from wf js f3 gi m raw q s show ?thesis by (intro conjI)
qed

section \<open>Configuration errors and unknown ids\<close>

text \<open>
  C9. With no backend configured, \<open>create_job\<close>, \<open>job_status\<close> and \<open>job_update\<close> each
  return the configuration error (and an error result carries no backend, so no state is
  written). With a backend configured, \<open>job_status\<close> of an id that has no stored record
  returns \<open>None\<close> and not an error, for the memory backend and for the RQ backend.
\<close>

theorem unconfigured_fails_unknown_absent:
  "create_job None job_id payload now = Inl not_configured
   \<and> job_status None job_id = Inl not_configured
   \<and> (''job_id'' \<notin> dom flds \<longrightarrow> job_update None job_id flds now = Inl not_configured)
   \<and> (jobs m job_id = None \<longrightarrow> job_status (Some (Memory m)) job_id = Inr None)
   \<and> (redis r (key job_id) = None \<longrightarrow> job_status (Some (RQ r)) job_id = Inr None)"
  by (simp add: create_job_def job_status_def job_update_def MemoryBackend_get_def
      RQBackend_get_def)

theorem unconfigured_fails_unknown_absent_witness:
  "''job_id'' \<notin> dom [''progress'' \<mapsto> JNum 50]
   \<and> job_update None ''a1'' [''progress'' \<mapsto> JNum 50] 7 = Inl not_configured
   \<and> jobs \<lparr>jobs = Map.empty, queue = []\<rparr> ''a1'' = None
   \<and> job_status (Some (Memory \<lparr>jobs = Map.empty, queue = []\<rparr>)) ''a1'' = Inr None
   \<and> redis \<lparr>redis = Map.empty, rq_jobs = []\<rparr> (key ''a1'') = None
   \<and> job_status (Some (RQ \<lparr>redis = Map.empty, rq_jobs = []\<rparr>)) ''a1'' = Inr None"
  using unconfigured_fails_unknown_absent
    [of "''a1''" JNone 7 "[''progress'' \<mapsto> JNum 50]"
        "\<lparr>jobs = Map.empty, queue = []\<rparr>" "\<lparr>redis = Map.empty, rq_jobs = []\<rparr>"]
  by simp

end
